theory Spec2Isabelle
  imports Main "HOL-Library.AList" "HOL-Library.Sublist" "HOL-Library.List_Lexorder" "HOL-Library.Char_ord"
begin

unbundle bit_operations_syntax

section \<open>The file system the linker runs on\<close>

text \<open>
  The program of \<^verbatim>\<open>internal/sym/sym.go\<close> is a sequence of calls into the Go packages
  \<^verbatim>\<open>os\<close> and \<^verbatim>\<open>path/filepath\<close>. The file system is modelled as a tree: a regular file
  (mode and contents), a symbolic link (its stored destination) or a directory (mode and
  named children). A path is the list of the components of a cleaned absolute path, so
  \<^verbatim>\<open>/src/vim/.vimrc\<close> is \<open>[''src'', ''vim'', ''.vimrc'']\<close> and the root is \<open>[]\<close>.

  Path names are resolved as the kernel does it: a symbolic link met on the way is
  followed, one in the last component only by the calls that follow it (\<^verbatim>\<open>stat\<close>,
  \<^verbatim>\<open>open\<close>), and after 40 links the answer is \<open>ELOOP\<close>. A directory is made with the
  permission bits asked for minus those of the umask of the process.

  Limits of the model, all on the side of the operating system: \<^verbatim>\<open>Printf\<close> output is not
  recorded; permissions never deny an operation; link destinations are absolute paths.
\<close>

type_synonym path = "string list"

datatype node = File nat string | Link path | Dir nat "(string \<times> node) list"

datatype oserr = ENOENT | ENOTDIR | EEXIST | ELOOP | EINVAL | ENOTEMPTY | EBUSY

text \<open>What \<^verbatim>\<open>os.FileInfo\<close> tells the program: the kind of the entry and its mode bits.\<close>

datatype FileInfo = FileInfo (IsDir: bool) (IsSymlink: bool) (Mode: nat)

fun info_of :: "node \<Rightarrow> FileInfo" where
  "info_of (File m c) = FileInfo False False m"
| "info_of (Link d) = FileInfo False True 511"
| "info_of (Dir m es) = FileInfo True False m"

text \<open>
  The tree itself: \<open>descend\<close> goes down from a node along names and follows nothing,
  \<open>put\<close> and \<open>del\<close> replace and delete the node at such a place. These are not system
  calls; a place is where path resolution, below, arrives.
\<close>

fun descend :: "node \<Rightarrow> path \<Rightarrow> oserr + node" where
  "descend t [] = Inr t"
| "descend (Dir m es) (n # ns) =
     (case map_of es n of None \<Rightarrow> Inl ENOENT | Some c \<Rightarrow> descend c ns)"
| "descend t (n # ns) = Inl ENOTDIR"

fun put :: "path \<Rightarrow> node \<Rightarrow> node \<Rightarrow> node" where
  "put [] new t = new"
| "put [n] new (Dir m es) = Dir m (AList.update n new es)"
| "put (n # ns) new (Dir m es) =
     (case map_of es n of None \<Rightarrow> Dir m es
      | Some c \<Rightarrow> Dir m (AList.update n (put ns new c) es))"
| "put (n # ns) new t = t"

fun del :: "path \<Rightarrow> node \<Rightarrow> node" where
  "del [] t = t"
| "del [n] (Dir m es) = Dir m (AList.delete n es)"
| "del (n # ns) (Dir m es) =
     (case map_of es n of None \<Rightarrow> Dir m es
      | Some c \<Rightarrow> Dir m (AList.update n (del ns c) es))"
| "del (n # ns) t = t"

text \<open>
  Path resolution. \<open>namei k follow fs cur rest\<close> has arrived at the directory at place
  \<open>cur\<close> and still has the names \<open>rest\<close> to go; \<open>k\<close> is the number of links it may still
  follow. A directory is entered; a link is replaced by its destination, from the root,
  unless it is the last name and \<open>follow\<close> is off; a missing name is an error unless it
  is the last one, and then the answer is the place where the entry would be, as the
  calls that create an entry need it. The answer is a place of the tree, never a path
  through a link.
\<close>

fun namei :: "nat \<Rightarrow> bool \<Rightarrow> node \<Rightarrow> path \<Rightarrow> path \<Rightarrow> oserr + path" where
  "namei k follow fs cur [] = Inr cur"
| "namei k follow fs cur (n # rest) =
     (case descend fs (cur @ [n]) of
        Inl e \<Rightarrow> (if e = ENOENT \<and> rest = [] then Inr (cur @ [n]) else Inl e)
      | Inr (Dir m es) \<Rightarrow> namei k follow fs (cur @ [n]) rest
      | Inr (File m c) \<Rightarrow> (if rest = [] then Inr (cur @ [n]) else Inl ENOTDIR)
      | Inr (Link d) \<Rightarrow>
          (if rest = [] \<and> \<not> follow then Inr (cur @ [n])
           else (case k of 0 \<Rightarrow> Inl ELOOP | Suc j \<Rightarrow> namei j follow fs [] (d @ rest))))"

definition locate :: "bool \<Rightarrow> node \<Rightarrow> path \<Rightarrow> oserr + path" where
  "locate follow fs p = namei 40 follow fs [] p"

text \<open>The node a path names, with the last link followed or not.\<close>

definition lookup :: "bool \<Rightarrow> node \<Rightarrow> path \<Rightarrow> oserr + node" where
  "lookup follow fs p =
     (case locate follow fs p of Inl e \<Rightarrow> Inl e | Inr q \<Rightarrow> descend fs q)"

definition IsNotExist :: "oserr \<Rightarrow> bool" where
  "IsNotExist e = (e = ENOENT)"

definition Lstat :: "node \<Rightarrow> path \<Rightarrow> oserr + FileInfo" where
  "Lstat fs p = (case lookup False fs p of Inl e \<Rightarrow> Inl e | Inr nd \<Rightarrow> Inr (info_of nd))"

definition Stat :: "node \<Rightarrow> path \<Rightarrow> oserr + FileInfo" where
  "Stat fs p = (case lookup True fs p of Inl e \<Rightarrow> Inl e | Inr nd \<Rightarrow> Inr (info_of nd))"

definition Readlink :: "node \<Rightarrow> path \<Rightarrow> oserr + path" where
  "Readlink fs p =
     (case lookup False fs p of
        Inl e \<Rightarrow> Inl e
      | Inr (Link d) \<Rightarrow> Inr d
      | Inr nd \<Rightarrow> Inl EINVAL)"

text \<open>
  Creating an entry at a place needs a directory as parent and a free name. Both
  \<^verbatim>\<open>mkdir(2)\<close> and \<^verbatim>\<open>symlink(2)\<close> resolve the path without following a last link and go
  through \<open>create\<close>; \<^verbatim>\<open>mkdir(2)\<close> clears the bits of the umask \<open>um\<close> of the process.
\<close>

definition create :: "node \<Rightarrow> path \<Rightarrow> node \<Rightarrow> oserr + node" where
  "create fs q new =
     (if q = [] then Inl EEXIST
      else case descend fs (butlast q) of
             Inl e \<Rightarrow> Inl e
           | Inr (Dir m es) \<Rightarrow>
               (case map_of es (last q) of
                  None \<Rightarrow> Inr (put q new fs)
                | Some c \<Rightarrow> Inl EEXIST)
           | Inr nd \<Rightarrow> Inl ENOTDIR)"

definition apply_umask :: "nat \<Rightarrow> nat \<Rightarrow> nat" where
  "apply_umask um perm = perm - (perm AND um)"

definition Mkdir :: "nat \<Rightarrow> node \<Rightarrow> path \<Rightarrow> nat \<Rightarrow> oserr + node" where
  "Mkdir um fs p perm =
     (case locate False fs p of
        Inl e \<Rightarrow> Inl e
      | Inr q \<Rightarrow> create fs q (Dir (apply_umask um perm) []))"

definition Symlink :: "node \<Rightarrow> path \<Rightarrow> path \<Rightarrow> oserr + node" where
  "Symlink fs oldname newname =
     (case locate False fs newname of
        Inl e \<Rightarrow> Inl e
      | Inr q \<Rightarrow> create fs q (Link oldname))"

text \<open>\<^verbatim>\<open>os.Remove\<close> removes a file, a link or an empty directory; a last link is not followed.\<close>

definition Remove :: "node \<Rightarrow> path \<Rightarrow> oserr + node" where
  "Remove fs p =
     (case locate False fs p of
        Inl e \<Rightarrow> Inl e
      | Inr q \<Rightarrow>
          (if q = [] then Inl EBUSY
           else case descend fs q of
                  Inl e \<Rightarrow> Inl e
                | Inr (Dir m es) \<Rightarrow> (if es = [] then Inr (del q fs) else Inl ENOTEMPTY)
                | Inr nd \<Rightarrow> Inr (del q fs)))"

text \<open>
  \<^verbatim>\<open>os.MkdirAll\<close>: nothing to do when the path is a directory, an error when it is
  something else, otherwise the parent first and then the directory itself. A failure
  keeps the parents already made, so the file system is returned in both cases.
\<close>

fun MkdirAll_rev :: "nat \<Rightarrow> node \<Rightarrow> path \<Rightarrow> nat \<Rightarrow> oserr option \<times> node" where
  "MkdirAll_rev um fs rp perm =
     (case Stat fs (rev rp) of
        Inr dir \<Rightarrow> (if IsDir dir then (None, fs) else (Some ENOTDIR, fs))
      | Inl e0 \<Rightarrow>
          (case (case rp of [] \<Rightarrow> (None, fs) | n # rq \<Rightarrow> MkdirAll_rev um fs rq perm) of
             (Some e, fs1) \<Rightarrow> (Some e, fs1)
           | (None, fs1) \<Rightarrow>
               (case Mkdir um fs1 (rev rp) perm of
                  Inr fs2 \<Rightarrow> (None, fs2)
                | Inl e \<Rightarrow>
                    (case Lstat fs1 (rev rp) of
                       Inr dir \<Rightarrow> (if IsDir dir then (None, fs1) else (Some e, fs1))
                     | Inl e1 \<Rightarrow> (Some e, fs1)))))"

definition MkdirAll :: "nat \<Rightarrow> node \<Rightarrow> path \<Rightarrow> nat \<Rightarrow> oserr option \<times> node" where
  "MkdirAll um fs p perm = MkdirAll_rev um fs (rev p) perm"

text \<open>
  \<^verbatim>\<open>readDirNames\<close> of \<^verbatim>\<open>path/filepath\<close>: the directory is opened, following links, and
  its names are returned sorted.
\<close>

fun names_of :: "node \<Rightarrow> oserr + string list" where
  "names_of (Dir m es) = Inr (sort (remdups (map fst es)))"
| "names_of nd = Inl ENOTDIR"

definition readDirNames :: "node \<Rightarrow> path \<Rightarrow> oserr + string list" where
  "readDirNames fs p =
     (case lookup True fs p of Inl e \<Rightarrow> Inl e | Inr nd \<Rightarrow> names_of nd)"

text \<open>
  Paths are cleaned component lists, so \<^verbatim>\<open>filepath.Join\<close> of a path and a relative path is
  their concatenation and \<^verbatim>\<open>filepath.Dir\<close> drops the last component. \<^verbatim>\<open>filepath.Rel\<close> of a
  path below the base is the rest of the path; the dot-dot answers it gives elsewhere are
  not modelled and reported as \<open>EINVAL\<close> (the walk only hands out paths below its root).
\<close>

definition Join :: "path \<Rightarrow> path \<Rightarrow> path" where
  "Join a b = a @ b"

definition filepath_Dir :: "path \<Rightarrow> path" where
  "filepath_Dir p = butlast p"

definition Rel :: "path \<Rightarrow> path \<Rightarrow> oserr + path" where
  "Rel basepath targpath =
     (if prefix basepath targpath then Inr (drop (length basepath) targpath) else Inl EINVAL)"

section \<open>The program\<close>

record Config =
  SymDir :: path
  TargetDir :: path
  Verbose :: bool
  Simulate :: bool
  Delete :: bool
  ReSym :: bool
  Packages :: "path list"

text \<open>
  One constructor for each error the program builds, with the values it formats. The
  functions that can make a directory carry the umask \<open>um\<close> of the process as their
  first argument; it is the only thing they take from the process besides the file
  system.
\<close>

datatype error =
    OsError oserr
  | PackageDirNotExist path
  | ResymUnsymFailed error
  | CreateDirFailed path oserr
  | TargetPointsElsewhere path path path
  | TargetNotSymlink path
  | CreateParentFailed path oserr
  | CreateSymlinkFailed path path oserr
  | RemoveSymlinkFailed path oserr
  | NilFileInfo

definition createSymlink :: "nat \<Rightarrow> Config \<Rightarrow> path \<Rightarrow> path \<Rightarrow> node \<Rightarrow> error option \<times> node" where
  "createSymlink um config srcPath targetPath fs =
     (case Lstat fs targetPath of
        Inr info \<Rightarrow>
          (case Readlink fs targetPath of
             Inr link \<Rightarrow>
               (if link = srcPath then (None, fs)
                else (Some (TargetPointsElsewhere targetPath link srcPath), fs))
           | Inl e \<Rightarrow> (Some (TargetNotSymlink targetPath), fs))
      | Inl e0 \<Rightarrow>
          (let targetDir = filepath_Dir targetPath;
               (r1, fs1) =
                 (case Stat fs targetDir of
                    Inl e \<Rightarrow>
                      (if IsNotExist e \<and> \<not> Simulate config then MkdirAll um fs targetDir 493
                       else (None, fs))
                  | Inr i \<Rightarrow> (None, fs))
           in case r1 of
                Some e \<Rightarrow> (Some (CreateParentFailed targetDir e), fs1)
              | None \<Rightarrow>
                  (if \<not> Simulate config then
                     (case Symlink fs1 srcPath targetPath of
                        Inl e \<Rightarrow> (Some (CreateSymlinkFailed targetPath srcPath e), fs1)
                      | Inr fs2 \<Rightarrow> (None, fs2))
                   else (None, fs1))))"

definition removeSymlink :: "Config \<Rightarrow> path \<Rightarrow> path \<Rightarrow> node \<Rightarrow> error option \<times> node" where
  "removeSymlink config srcPath targetPath fs =
     (case Lstat fs targetPath of
        Inl e \<Rightarrow> (if IsNotExist e then (None, fs) else (Some (OsError e), fs))
      | Inr info \<Rightarrow>
          (if \<not> IsSymlink info then (None, fs)
           else case Readlink fs targetPath of
                  Inl e \<Rightarrow> (Some (OsError e), fs)
                | Inr link \<Rightarrow>
                    (if link \<noteq> srcPath then (None, fs)
                     else if \<not> Simulate config then
                       (case Remove fs targetPath of
                          Inl e \<Rightarrow> (Some (RemoveSymlinkFailed targetPath e), fs)
                        | Inr fs1 \<Rightarrow> (None, fs1))
                     else (None, fs))))"

section \<open>Walking a package\<close>

text \<open>
  \<^verbatim>\<open>filepath.Walk\<close> as the Go library writes it: the names of a directory are read before
  the callback sees the directory, and every name is then looked up again (\<open>Lstat\<close>) in the
  file system as the callbacks before it have left it. The recursion of the library is
  not bounded; here it carries fuel, one unit for every directory level, and reports
  \<open>OutOfFuel\<close> together with the file system reached so far. \<^verbatim>\<open>SkipDir\<close> is left out: no
  callback of this program returns it. A callback gets the path, the file info (absent
  when \<open>Lstat\<close> failed) and the error of the library, if any.
\<close>

datatype outcome = OutOfFuel | Returned "error option"

type_synonym WalkFunc = "path \<Rightarrow> FileInfo option \<Rightarrow> oserr option \<Rightarrow> node \<Rightarrow> error option \<times> node"

fun walk :: "nat \<Rightarrow> WalkFunc \<Rightarrow> path \<Rightarrow> FileInfo \<Rightarrow> node \<Rightarrow> outcome \<times> node"
  and walk_names :: "nat \<Rightarrow> WalkFunc \<Rightarrow> path \<Rightarrow> string list \<Rightarrow> node \<Rightarrow> outcome \<times> node"
where
  "walk 0 walkFn path info fs =
     (if \<not> IsDir info then
        (case walkFn path (Some info) None fs of (r, fs1) \<Rightarrow> (Returned r, fs1))
      else (OutOfFuel, fs))"
| "walk (Suc k) walkFn path info fs =
     (if \<not> IsDir info then
        (case walkFn path (Some info) None fs of (r, fs1) \<Rightarrow> (Returned r, fs1))
      else
        (case readDirNames fs path of
           Inl err \<Rightarrow>
             (case walkFn path (Some info) (Some err) fs of
                (err1, fs1) \<Rightarrow> (Returned err1, fs1))
         | Inr names \<Rightarrow>
             (case walkFn path (Some info) None fs of
                (Some err1, fs1) \<Rightarrow> (Returned (Some err1), fs1)
              | (None, fs1) \<Rightarrow> walk_names k walkFn path names fs1)))"
| "walk_names n walkFn path [] fs = (Returned None, fs)"
| "walk_names n walkFn path (name # names) fs =
     (case Lstat fs (Join path [name]) of
        Inl err \<Rightarrow>
          (case walkFn (Join path [name]) None (Some err) fs of
             (Some e, fs1) \<Rightarrow> (Returned (Some e), fs1)
           | (None, fs1) \<Rightarrow> walk_names n walkFn path names fs1)
      | Inr fileInfo \<Rightarrow>
          (case walk n walkFn (Join path [name]) fileInfo fs of
             (Returned None, fs1) \<Rightarrow> walk_names n walkFn path names fs1
           | (r, fs1) \<Rightarrow> (r, fs1)))"

definition Walk :: "nat \<Rightarrow> WalkFunc \<Rightarrow> path \<Rightarrow> node \<Rightarrow> outcome \<times> node" where
  "Walk n fn root fs =
     (case Lstat fs root of
        Inl err \<Rightarrow> (case fn root None (Some err) fs of (r, fs1) \<Rightarrow> (Returned r, fs1))
      | Inr info \<Rightarrow> walk n fn root info fs)"

text \<open>The two callbacks, the function literals of \<^verbatim>\<open>symPackage\<close> and \<^verbatim>\<open>unsymPackage\<close>.\<close>

definition symPackage_fn :: "nat \<Rightarrow> Config \<Rightarrow> path \<Rightarrow> WalkFunc" where
  "symPackage_fn um config pkgPath path info err fs =
     (case err of
        Some e \<Rightarrow> (Some (OsError e), fs)
      | None \<Rightarrow>
          (if path = pkgPath then (None, fs)
           else case Rel pkgPath path of
                  Inl e \<Rightarrow> (Some (OsError e), fs)
                | Inr relPath \<Rightarrow>
                    (let targetPath = Join (TargetDir config) relPath
                     in case info of
                          None \<Rightarrow> (Some NilFileInfo, fs)
                        | Some i \<Rightarrow>
                            (if IsDir i then
                               (case Stat fs targetPath of
                                  Inr i1 \<Rightarrow> (None, fs)
                                | Inl e \<Rightarrow>
                                    (if IsNotExist e \<and> \<not> Simulate config then
                                       (case MkdirAll um fs targetPath (Mode i) of
                                          (Some e1, fs1) \<Rightarrow>
                                            (Some (CreateDirFailed targetPath e1), fs1)
                                        | (None, fs1) \<Rightarrow> (None, fs1))
                                     else (None, fs)))
                             else createSymlink um config path targetPath fs))))"

definition unsymPackage_fn :: "Config \<Rightarrow> path \<Rightarrow> WalkFunc" where
  "unsymPackage_fn config pkgPath path info err fs =
     (case err of
        Some e \<Rightarrow> (Some (OsError e), fs)
      | None \<Rightarrow>
          (if path = pkgPath then (None, fs)
           else case Rel pkgPath path of
                  Inl e \<Rightarrow> (Some (OsError e), fs)
                | Inr relPath \<Rightarrow>
                    (let targetPath = Join (TargetDir config) relPath
                     in case info of
                          None \<Rightarrow> (Some NilFileInfo, fs)
                        | Some i \<Rightarrow>
                            (if \<not> IsDir i then removeSymlink config path targetPath fs
                             else (None, fs)))))"

definition symPackage :: "nat \<Rightarrow> nat \<Rightarrow> Config \<Rightarrow> path \<Rightarrow> path \<Rightarrow> node \<Rightarrow> outcome \<times> node" where
  "symPackage um n config pkg pkgPath fs = Walk n (symPackage_fn um config pkgPath) pkgPath fs"

definition unsymPackage :: "nat \<Rightarrow> Config \<Rightarrow> path \<Rightarrow> path \<Rightarrow> node \<Rightarrow> outcome \<times> node" where
  "unsymPackage n config pkg pkgPath fs = Walk n (unsymPackage_fn config pkgPath) pkgPath fs"

definition ProcessPackage :: "nat \<Rightarrow> nat \<Rightarrow> Config \<Rightarrow> path \<Rightarrow> node \<Rightarrow> outcome \<times> node" where
  "ProcessPackage um n config pkg fs =
     (let pkgPath = Join (SymDir config) pkg
      in if (case Stat fs pkgPath of Inl e \<Rightarrow> IsNotExist e | Inr i \<Rightarrow> False) then
           (Returned (Some (PackageDirNotExist pkgPath)), fs)
         else if ReSym config then
           (case unsymPackage n config pkg pkgPath fs of
              (Returned (Some err), fs1) \<Rightarrow> (Returned (Some (ResymUnsymFailed err)), fs1)
            | (Returned None, fs1) \<Rightarrow> symPackage um n config pkg pkgPath fs1
            | (OutOfFuel, fs1) \<Rightarrow> (OutOfFuel, fs1))
         else if Delete config then unsymPackage n config pkg pkgPath fs
         else symPackage um n config pkg pkgPath fs)"

section \<open>Example file systems\<close>

text \<open>
  The scenario of the specification: the package \<^verbatim>\<open>/src/vim\<close> holds \<^verbatim>\<open>.vimrc\<close> and
  \<^verbatim>\<open>colors/foo.vim\<close>, the target root is \<^verbatim>\<open>/home/u\<close>.
\<close>

definition vim_pkg :: node where
  "vim_pkg = Dir 493 [(''.vimrc'', File 420 ''set nocp''),
                      (''colors'', Dir 488 [(''foo.vim'', File 420 ''hi'')])]"

definition mkfs :: "(string \<times> node) list \<Rightarrow> node" where
  "mkfs home = Dir 493 [(''src'', Dir 493 [(''vim'', vim_pkg)]),
                        (''home'', Dir 493 [(''u'', Dir 493 home)])]"

definition cfg :: "bool \<Rightarrow> bool \<Rightarrow> bool \<Rightarrow> Config" where
  "cfg sim dele resym =
     \<lparr>SymDir = [''src''], TargetDir = [''home'', ''u''], Verbose = False, Simulate = sim,
      Delete = dele, ReSym = resym, Packages = [[''vim'']]\<rparr>"

section \<open>Observations used in the statements\<close>

text \<open>
  What is stored at a place of the tree, without the children of a directory: a file
  with mode and contents, a link with its destination, or a directory with its mode;
  and what a path names, after resolution. \<open>Lstat\<close>, \<open>Stat\<close> and \<open>Readlink\<close> see no more
  than the latter.
\<close>

fun shallow :: "node \<Rightarrow> node" where
  "shallow (Dir m es) = Dir m []"
| "shallow t = t"

definition peek :: "node \<Rightarrow> path \<Rightarrow> oserr + node" where
  "peek fs q = (case descend fs q of Inl e \<Rightarrow> Inl e | Inr nd \<Rightarrow> Inr (shallow nd))"

definition seen :: "bool \<Rightarrow> node \<Rightarrow> path \<Rightarrow> oserr + node" where
  "seen follow fs p = (case lookup follow fs p of Inl e \<Rightarrow> Inl e | Inr nd \<Rightarrow> Inr (shallow nd))"

text \<open>The errors a walk can hand back: all but the two that \<open>ProcessPackage\<close> builds itself.\<close>

fun walk_error :: "error \<Rightarrow> bool" where
  "walk_error (PackageDirNotExist p) = False"
| "walk_error (ResymUnsymFailed e) = False"
| "walk_error e = True"

text \<open>More example file systems: a regular file where the package should be, and a
  target root in which \<^verbatim>\<open>colors\<close> is a regular file.\<close>

definition file_pkg_fs :: node where
  "file_pkg_fs = Dir 493 [(''src'', Dir 493 [(''vim'', File 420 ''not a directory'')]),
                          (''home'', Dir 493 [(''u'', Dir 493 [])])]"

definition colors_file_fs :: node where
  "colors_file_fs = mkfs [(''colors'', File 420 ''palette'')]"

text \<open>
  What a walk may change, place by place. An unlink walk only makes entries disappear:
  a link that points to a path of the package below its root, and with it the
  \<open>ENOTDIR\<close> answers below the link. A link walk only fills places that were empty: with
  a directory, or with a link that points to a path of the package below its root (and
  \<open>ENOTDIR\<close> below such a link).
\<close>

definition unlinked :: "path \<Rightarrow> node \<Rightarrow> node \<Rightarrow> bool" where
  "unlinked pkgPath fs fs' \<longleftrightarrow>
     (\<forall>q. peek fs' q = peek fs q \<or>
          (peek fs' q = Inl ENOENT \<and>
           (peek fs q = Inl ENOTDIR \<or>
            (\<exists>rel. rel \<noteq> [] \<and> peek fs q = Inr (Link (Join pkgPath rel))))))"

definition linked :: "path \<Rightarrow> node \<Rightarrow> node \<Rightarrow> bool" where
  "linked pkgPath fs fs' \<longleftrightarrow>
     (\<forall>q. peek fs' q = peek fs q \<or>
          (peek fs q = Inl ENOENT \<and>
           (peek fs' q = Inl ENOTDIR \<or>
            (\<exists>m. peek fs' q = Inr (Dir m [])) \<or>
            (\<exists>rel. rel \<noteq> [] \<and> peek fs' q = Inr (Link (Join pkgPath rel))))))"

text \<open>A target root with a link that belongs to someone else, a link of the package and a
  file of the user; and the same after unlinking the package.\<close>

definition mixed_fs :: node where
  "mixed_fs = mkfs [(''.vimrc'', Link [''other'', ''.vimrc'']),
                    (''colors'', Dir 488 [(''foo.vim'', Link [''src'', ''vim'', ''colors'', ''foo.vim''])]),
                    (''notes'', File 420 ''keep'')]"

definition mixed_fs_unlinked :: node where
  "mixed_fs_unlinked = mkfs [(''.vimrc'', Link [''other'', ''.vimrc'']),
                             (''colors'', Dir 488 []),
                             (''notes'', File 420 ''keep'')]"

text \<open>
  A target root in which \<^verbatim>\<open>colors\<close> is a symbolic link to the directory \<^verbatim>\<open>themes\<close> beside
  it: the target \<^verbatim>\<open>/home/u/colors/foo.vim\<close> of the package names the place
  \<^verbatim>\<open>/home/u/themes/foo.vim\<close>.
\<close>

definition themes_fs :: "(string \<times> node) list \<Rightarrow> node" where
  "themes_fs themes = mkfs [(''colors'', Link [''home'', ''u'', ''themes'']),
                            (''themes'', Dir 493 themes)]"

text \<open>A package that holds one empty directory, \<^verbatim>\<open>colors\<close>, over a given target root.\<close>

definition empty_dir_fs :: "(string \<times> node) list \<Rightarrow> node" where
  "empty_dir_fs home = Dir 493 [(''src'', Dir 493 [(''vim'', Dir 493 [(''colors'', Dir 488 [])])]),
                                (''home'', Dir 493 [(''u'', Dir 493 home)])]"

text \<open>The same with permission bits \<^verbatim>\<open>0777\<close> on the directory of the package.\<close>

definition wide_dir_fs :: "(string \<times> node) list \<Rightarrow> node" where
  "wide_dir_fs home = Dir 493 [(''src'', Dir 493 [(''vim'', Dir 493 [(''colors'', Dir 511 [])])]),
                               (''home'', Dir 493 [(''u'', Dir 493 home)])]"

text \<open>
  Two runs over the same package see the same package when every path below the
  package root names the same thing and lists the same names in both file systems.
\<close>

definition src_same :: "path \<Rightarrow> node \<Rightarrow> node \<Rightarrow> bool" where
  "src_same root a b \<longleftrightarrow>
     (\<forall>q. prefix root q \<longrightarrow> Lstat b q = Lstat a q \<and> readDirNames b q = readDirNames a q)"

text \<open>\<open>ext f g\<close>: whatever \<open>f\<close> holds at a place, other than nothing, \<open>g\<close> holds too.
  \<open>shr f g\<close>: \<open>g\<close> holds at a place what \<open>f\<close> holds, or nothing.\<close>

definition ext :: "node \<Rightarrow> node \<Rightarrow> bool" where
  "ext f g \<longleftrightarrow> (\<forall>q. peek f q \<noteq> Inl ENOENT \<longrightarrow> peek g q = peek f q)"

definition shr :: "node \<Rightarrow> node \<Rightarrow> bool" where
  "shr f g \<longleftrightarrow> (\<forall>q. peek g q = peek f q \<or> peek g q = Inl ENOENT)"

text \<open>The example package linked into the empty target root.\<close>

definition vim_linked_fs :: node where
  "vim_linked_fs = mkfs [(''.vimrc'', Link [''src'', ''vim'', ''.vimrc'']),
                         (''colors'', Dir 488 [(''foo.vim'', Link [''src'', ''vim'', ''colors'', ''foo.vim''])])]"




text \<open>\<open>cleared f f' g\<close>: no link that appeared between \<open>f\<close> and \<open>f'\<close> is left in \<open>g\<close>.\<close>

definition cleared :: "node \<Rightarrow> node \<Rightarrow> node \<Rightarrow> bool" where
  "cleared f f' g \<longleftrightarrow>
     (\<forall>q d. peek f q = Inl ENOENT \<and> peek f' q = Inr (Link d) \<longrightarrow> peek g q = Inl ENOENT)"

text \<open>The entry at a path, if the path resolves: the state of the tree as a user sees it.\<close>

definition entry :: "node \<Rightarrow> path \<Rightarrow> node option" where
  "entry fs p = (case peek fs p of Inl e \<Rightarrow> None | Inr nd \<Rightarrow> Some nd)"

section \<open>Facts about the file system\<close>

lemma put_Cons_Dir:
  "put (n # ns) new (Dir m es) =
     (if ns = [] then Dir m (AList.update n new es)
      else case map_of es n of None \<Rightarrow> Dir m es
           | Some c \<Rightarrow> Dir m (AList.update n (put ns new c) es))"
  by (cases ns) auto

lemma del_Cons_Dir:
  "del (n # ns) (Dir m es) =
     (if ns = [] then Dir m (AList.delete n es)
      else case map_of es n of None \<Rightarrow> Dir m es
           | Some c \<Rightarrow> Dir m (AList.update n (del ns c) es))"
  by (cases ns) auto

lemma descend_append:
  "descend t (p @ r) = (case descend t p of Inl e \<Rightarrow> Inl e | Inr nd \<Rightarrow> descend nd r)"
proof (induction p arbitrary: t)
  case Nil
  show ?case by simp
next
  case (Cons n ns)
  show ?case
    by (cases t) (auto simp: Cons.IH split: option.splits)
qed

lemma peek_append:
  "peek t (p @ r) = (case descend t p of Inl e \<Rightarrow> Inl e | Inr nd \<Rightarrow> peek nd r)"
  by (simp add: peek_def descend_append split: sum.splits)

lemma peek_Nil [simp]: "peek t [] = Inr (shallow t)"
  by (simp add: peek_def)

lemma peek_Cons_Dir:
  "peek (Dir m es) (n # ns) = (case map_of es n of None \<Rightarrow> Inl ENOENT | Some c \<Rightarrow> peek c ns)"
  by (simp add: peek_def split: option.splits)

lemma peek_Cons_File [simp]: "peek (File m c) (n # ns) = Inl ENOTDIR"
  by (simp add: peek_def)

lemma peek_Cons_Link [simp]: "peek (Link d) (n # ns) = Inl ENOTDIR"
  by (simp add: peek_def)

lemma peek_empty_Dir [simp]: "peek (Dir m []) (n # ns) = Inl ENOENT"
  by (simp add: peek_def)

lemma info_of_shallow [simp]: "info_of (shallow nd) = info_of nd"
  by (cases nd) auto

lemma peek_Link_iff: "peek fs p = Inr (Link d) \<longleftrightarrow> descend fs p = Inr (Link d)"
proof -
  have "shallow nd = Link d \<longleftrightarrow> nd = Link d" for nd
    by (cases nd) auto
  then show ?thesis
    by (auto simp: peek_def split: sum.splits)
qed

lemma peek_Inl_iff: "peek fs p = Inl e \<longleftrightarrow> descend fs p = Inl e"
  by (auto simp: peek_def split: sum.splits)

text \<open>Below a missing name everything is missing; below a file or a link nothing resolves.\<close>

lemma peek_below_ENOENT:
  "peek t p = Inl ENOENT \<Longrightarrow> prefix p q \<Longrightarrow> peek t q = Inl ENOENT"
proof (induction p arbitrary: t q)
  case Nil
  then show ?case by simp
next
  case (Cons n ns)
  from Cons.prems(2) obtain ks where q: "q = n # ks" "prefix ns ks"
    by (cases q) auto
  show ?case
  proof (cases t)
    case (Dir m es)
    then show ?thesis using Cons q
      by (auto simp: peek_Cons_Dir split: option.splits)
  qed (use Cons.prems in auto)
qed

lemma peek_below_ENOTDIR:
  "peek t p = Inl ENOTDIR \<Longrightarrow> prefix p q \<Longrightarrow> peek t q = Inl ENOTDIR"
proof (induction p arbitrary: t q)
  case Nil
  then show ?case by simp
next
  case (Cons n ns)
  from Cons.prems(2) obtain ks where q: "q = n # ks" "prefix ns ks"
    by (cases q) auto
  show ?case
  proof (cases t)
    case (Dir m es)
    then show ?thesis using Cons q
      by (auto simp: peek_Cons_Dir split: option.splits)
  qed (use q in auto)
qed

lemma peek_below_nondir:
  assumes "peek t p = Inr nd" "\<forall>m. nd \<noteq> Dir m []" "strict_prefix p q"
  shows "peek t q = Inl ENOTDIR"
proof -
  from assms(3) obtain r where q: "q = p @ r" "r \<noteq> []"
    by (auto simp: strict_prefix_def prefix_def)
  from assms(1) obtain nd' where l: "descend t p = Inr nd'" "shallow nd' = nd"
    by (auto simp: peek_def split: sum.splits)
  with assms(2) have "\<forall>m es. nd' \<noteq> Dir m es" by auto
  with q l show ?thesis
    by (cases r; cases nd') (auto simp: peek_append)
qed

lemma peek_exists_prefix:
  assumes "peek t q = Inr nd" "prefix p q"
  shows "\<exists>e. peek t p = Inr e"
proof (cases "peek t p")
  case (Inl e)
  from assms(2) obtain r where "q = p @ r" by (auto simp: prefix_def)
  with Inl assms(1) show ?thesis
    by (simp add: peek_append peek_Inl_iff)
qed auto

lemma descend_parent_Dir:
  "descend t (butlast (n # ns)) = Inr (Dir m es) \<Longrightarrow> \<exists>m' es'. t = Dir m' es'"
  by (cases t; cases ns) auto

lemma peek_put:
  "p \<noteq> [] \<Longrightarrow> descend t (butlast p) = Inr (Dir m es) \<Longrightarrow>
   peek (put p new t) q = (if prefix p q then peek new (drop (length p) q) else peek t q)"
proof (induction p arbitrary: t q)
  case Nil
  then show ?case by simp
next
  case (Cons n ns)
  from Cons.prems(2) obtain m' es' where t: "t = Dir m' es'"
    using descend_parent_Dir by blast
  show ?case
  proof (cases "ns = []")
    case True
    then show ?thesis using t
      by (cases q) (auto simp: peek_Cons_Dir update_conv')
  next
    case False
    with Cons.prems(2) t obtain c
      where c: "map_of es' n = Some c" "descend c (butlast ns) = Inr (Dir m es)"
      by (auto split: option.splits)
    have IH: "peek (put ns new c) q' =
        (if prefix ns q' then peek new (drop (length ns) q') else peek c q')" for q'
      using Cons.IH [OF False c(2)] .
    show ?thesis
    proof (cases q)
      case Nil
      then show ?thesis using t False c by (simp add: put_Cons_Dir)
    next
      case (Cons k ks)
      then show ?thesis using t False c IH [of ks]
        by (auto simp: put_Cons_Dir peek_Cons_Dir update_conv')
    qed
  qed
qed

lemma peek_del:
  "p \<noteq> [] \<Longrightarrow> descend t p = Inr nd \<Longrightarrow>
   peek (del p t) q = (if prefix p q then Inl ENOENT else peek t q)"
proof (induction p arbitrary: t q)
  case Nil
  then show ?case by simp
next
  case (Cons n ns)
  from Cons.prems(2) obtain m' es' c
    where t: "t = Dir m' es'" and c: "map_of es' n = Some c" "descend c ns = Inr nd"
    by (cases t) (auto split: option.splits)
  show ?case
  proof (cases "ns = []")
    case True
    then show ?thesis using t
      by (cases q) (auto simp: peek_Cons_Dir delete_conv')
  next
    case False
    have IH: "peek (del ns c) q' = (if prefix ns q' then Inl ENOENT else peek c q')" for q'
      using Cons.IH [OF False c(2)] .
    show ?thesis
    proof (cases q)
      case Nil
      then show ?thesis using t False c by (simp add: del_Cons_Dir)
    next
      case (Cons k ks)
      then show ?thesis using t False c IH [of ks]
        by (auto simp: del_Cons_Dir peek_Cons_Dir update_conv')
    qed
  qed
qed

lemma peek_butlast:
  "p \<noteq> [] \<Longrightarrow> peek t p =
     (case descend t (butlast p) of Inl e \<Rightarrow> Inl e | Inr nd \<Rightarrow> peek nd [last p])"
  using peek_append [of t "butlast p" "[last p]"] by simp

lemma create_Inr:
  assumes "create fs p new = Inr fs'"
  shows "p \<noteq> [] \<and> (\<exists>m es. descend fs (butlast p) = Inr (Dir m es) \<and> map_of es (last p) = None)
         \<and> fs' = put p new fs"
proof (cases "p = []")
  case True
  with assms show ?thesis by (simp add: create_def)
next
  case False
  show ?thesis
  proof (cases "descend fs (butlast p)")
    case (Inl e)
    with assms False show ?thesis by (simp add: create_def)
  next
    case (Inr nd)
    show ?thesis
    proof (cases nd)
      case (Dir m es)
      with assms False Inr show ?thesis
        by (cases "map_of es (last p)") (simp_all add: create_def)
    qed (use assms False Inr in \<open>simp_all add: create_def\<close>)
  qed
qed

lemma create_spec:
  assumes "create fs p new = Inr fs'"
  shows "p \<noteq> []" and "peek fs p = Inl ENOENT"
    and "peek fs' q = (if prefix p q then peek new (drop (length p) q) else peek fs q)"
proof -
  from create_Inr [OF assms] obtain m es where p: "p \<noteq> []"
    and l: "descend fs (butlast p) = Inr (Dir m es)"
    and n: "map_of es (last p) = None" and fs': "fs' = put p new fs"
    by blast
  show "p \<noteq> []" by (rule p)
  show "peek fs p = Inl ENOENT" using p l n
    by (simp add: peek_butlast peek_Cons_Dir)
  show "peek fs' q = (if prefix p q then peek new (drop (length p) q) else peek fs q)"
    unfolding fs' by (rule peek_put [OF p l])
qed

lemma create_exists:
  assumes "peek fs p = Inr e"
  shows "create fs p new = Inl EEXIST"
proof (cases "p = []")
  case True
  then show ?thesis by (simp add: create_def)
next
  case False
  show ?thesis
  proof (cases "descend fs (butlast p)")
    case (Inl e')
    with assms False show ?thesis by (simp add: peek_butlast)
  next
    case (Inr nd)
    show ?thesis
    proof (cases nd)
      case (Dir m es)
      with assms False Inr show ?thesis
        by (cases "map_of es (last p)") (simp_all add: create_def peek_butlast peek_Cons_Dir)
    qed (use assms False Inr in \<open>simp_all add: peek_butlast\<close>)
  qed
qed

lemma peek_Inl_cases: "peek t p = Inl e \<Longrightarrow> e = ENOENT \<or> e = ENOTDIR"
proof (induction p arbitrary: t)
  case Nil
  then show ?case by simp
next
  case (Cons n ns)
  then show ?case
    by (cases t) (auto simp: peek_Cons_Dir split: option.splits)
qed

lemma peek_Dir_empty: "peek t p = Inr (Dir m es) \<Longrightarrow> es = []"
proof -
  assume "peek t p = Inr (Dir m es)"
  then obtain nd where "shallow nd = Dir m es" by (auto simp: peek_def split: sum.splits)
  then show ?thesis by (cases nd) auto
qed

lemma map_of_Some_key: "map_of es n = Some c \<Longrightarrow> n \<in> fst ` set es"
  by (metis map_of_eq_None_iff option.distinct(1))

text \<open>The names of a directory are the names below it that hold something.\<close>

lemma peek_child:
  assumes "peek fs cur = Inr (Dir m [])"
  shows "peek fs (cur @ [n]) = Inl ENOENT \<or> (\<exists>e. peek fs (cur @ [n]) = Inr e)"
proof -
  from assms obtain nd where l: "descend fs cur = Inr nd" "shallow nd = Dir m []"
    by (auto simp: peek_def split: sum.splits)
  then obtain es where "nd = Dir m es" by (cases nd) auto
  with l show ?thesis
    by (cases "map_of es n") (auto simp: peek_append peek_Cons_Dir)
qed

lemma names_of_set:
  assumes "descend fs q = Inr nd" "names_of nd = Inr ns"
  shows "set ns = {n. \<exists>e. peek fs (q @ [n]) = Inr e}"
proof -
  from assms(2) obtain m es where nd: "nd = Dir m es" and ns: "ns = sort (remdups (map fst es))"
    by (cases nd) auto
  have "(\<exists>e. peek fs (q @ [n]) = Inr e) \<longleftrightarrow> n \<in> fst ` set es" for n
  proof (cases "map_of es n")
    case None
    then have "n \<notin> fst ` set es" by (simp add: map_of_eq_None_iff)
    with None assms(1) nd show ?thesis by (simp add: peek_append peek_Cons_Dir)
  next
    case (Some c)
    then have "n \<in> fst ` set es" by (rule map_of_Some_key)
    with Some assms(1) nd show ?thesis by (simp add: peek_append peek_Cons_Dir)
  qed
  with ns show ?thesis by auto
qed

lemma names_of_sorted:
  assumes "names_of nd = Inr ns"
  shows "sorted ns \<and> distinct ns"
  using assms by (cases nd) auto

lemma names_of_shallow:
  "(\<exists>ns. names_of nd = Inr ns) \<longleftrightarrow> (\<exists>m. shallow nd = Dir m [])"
  by (cases nd) auto

section \<open>Facts about path resolution\<close>

lemma namei_Cons:
  "namei k b fs cur (n # rest) =
     (case peek fs (cur @ [n]) of
        Inl e \<Rightarrow> (if e = ENOENT \<and> rest = [] then Inr (cur @ [n]) else Inl e)
      | Inr (Dir m es) \<Rightarrow> namei k b fs (cur @ [n]) rest
      | Inr (File m c) \<Rightarrow> (if rest = [] then Inr (cur @ [n]) else Inl ENOTDIR)
      | Inr (Link d) \<Rightarrow>
          (if rest = [] \<and> \<not> b then Inr (cur @ [n])
           else (case k of 0 \<Rightarrow> Inl ELOOP | Suc j \<Rightarrow> namei j b fs [] (d @ rest))))"
proof (cases "descend fs (cur @ [n])")
  case (Inl e)
  then show ?thesis by (simp add: peek_def)
next
  case (Inr nd)
  then show ?thesis by (cases nd) (simp_all add: peek_def)
qed

declare namei.simps(2) [simp del]

text \<open>Resolution without following the last link answers a place with a name.\<close>

lemma namei_nonempty:
  "namei k False fs cur p = Inr q \<Longrightarrow> p \<noteq> [] \<Longrightarrow> q \<noteq> []"
proof (induction k "False" fs cur p rule: namei.induct)
  case (1 k fs cur)
  then show ?case by simp
next
  case (2 k fs cur n rest)
  show ?case
  proof (cases "peek fs (cur @ [n])")
    case (Inl e)
    with "2.prems" show ?thesis
      by (auto simp: namei_Cons split: if_splits)
  next
    case (Inr nd)
    then obtain x where d: "descend fs (cur @ [n]) = Inr x" and s: "shallow x = nd"
      by (auto simp: peek_def split: sum.splits)
    show ?thesis
    proof (cases x)
      case (File m c)
      with "2.prems" Inr s show ?thesis
        by (auto simp: namei_Cons split: if_splits)
    next
      case (Link dst)
      show ?thesis
      proof (cases "rest = []")
        case True
        with "2.prems" Inr s Link show ?thesis
          by (auto simp: namei_Cons)
      next
        case False
        show ?thesis
        proof (cases k)
          case 0
          with "2.prems" Inr s Link False show ?thesis
            by (auto simp: namei_Cons)
        next
          case (Suc j)
          with "2.prems" Inr s Link False
          have r: "namei j False fs [] (dst @ rest) = Inr q"
            by (auto simp: namei_Cons)
          have n: "\<not> (rest = [] \<and> \<not> False)" using False by simp
          from "2.hyps"(1) [OF d Link n Suc r] False show ?thesis by simp
        qed
      qed
    next
      case (Dir m es)
      with "2.prems" Inr s have r: "namei k False fs (cur @ [n]) rest = Inr q"
        by (auto simp: namei_Cons)
      show ?thesis
      proof (cases "rest = []")
        case True
        with r show ?thesis by auto
      next
        case False
        from "2.hyps"(2) [OF d Dir r False] show ?thesis .
      qed
    qed
  qed
qed

text \<open>
  A last name that is no link is reached the same way whether links are followed or
  not, and an error on the way is the same error.
\<close>

lemma namei_follow:
  "namei k False fs cur p = r \<Longrightarrow>
   (\<forall>q d. r = Inr q \<longrightarrow> peek fs q \<noteq> Inr (Link d)) \<Longrightarrow>
   namei k True fs cur p = r"
proof (induction k "False" fs cur p arbitrary: r rule: namei.induct)
  case (1 k fs cur)
  then show ?case by simp
next
  case (2 k fs cur n rest)
  show ?case
  proof (cases "descend fs (cur @ [n])")
    case (Inl e)
    then have "peek fs (cur @ [n]) = Inl e" by (simp add: peek_def)
    with "2.prems" show ?thesis by (simp add: namei_Cons)
  next
    case (Inr x)
    then have pk: "peek fs (cur @ [n]) = Inr (shallow x)" by (simp add: peek_def)
    show ?thesis
    proof (cases x)
      case (File m c)
      with "2.prems" pk show ?thesis by (simp add: namei_Cons)
    next
      case (Dir m es)
      with "2.prems" pk have r: "namei k False fs (cur @ [n]) rest = r"
        by (simp add: namei_Cons)
      from "2.hyps"(2) [OF Inr Dir r "2.prems"(2)] Dir pk show ?thesis
        by (simp add: namei_Cons)
    next
      case (Link dst)
      show ?thesis
      proof (cases "rest = []")
        case True
        with "2.prems" pk Link show ?thesis by (auto simp: namei_Cons)
      next
        case False
        show ?thesis
        proof (cases k)
          case 0
          with "2.prems" pk Link False show ?thesis by (auto simp: namei_Cons)
        next
          case (Suc j)
          with "2.prems" pk Link False have r: "namei j False fs [] (dst @ rest) = r"
            by (auto simp: namei_Cons)
          have n: "\<not> (rest = [] \<and> \<not> False)" using False by simp
          from "2.hyps"(1) [OF Inr Link n Suc r "2.prems"(2)] Link pk False Suc
          show ?thesis by (simp add: namei_Cons)
        qed
      qed
    qed
  qed
qed

text \<open>
  Resolution in a file system that has grown. Whatever a path resolved to, other than
  a missing name on the way, it still resolves to; with the last link followed this
  needs the place reached to hold something.
\<close>

lemma namei_ext:
  "namei k b f cur p = r \<Longrightarrow> r \<noteq> Inl ENOENT \<Longrightarrow>
   cur = [] \<or> (\<exists>m. peek f cur = Inr (Dir m [])) \<Longrightarrow>
   (b \<longrightarrow> (\<forall>q. r = Inr q \<longrightarrow> peek f q \<noteq> Inl ENOENT)) \<Longrightarrow> ext f g \<Longrightarrow>
   namei k b g cur p = r"
proof (induction k b f cur p arbitrary: r rule: namei.induct)
  case (1 k b f cur)
  then show ?case by simp
next
  case (2 k b f cur n rest)
  have pg: "peek f q \<noteq> Inl ENOENT \<Longrightarrow> peek g q = peek f q" for q
    using "2.prems"(5) unfolding ext_def by blast
  show ?case
  proof (cases "descend f (cur @ [n])")
    case (Inl er)
    then have pk: "peek f (cur @ [n]) = Inl er" by (simp add: peek_def)
    show ?thesis
    proof (cases "er = ENOENT")
      case False
      with pk pg [of "cur @ [n]"] "2.prems"(1) show ?thesis
        by (simp add: namei_Cons)
    next
      case True
      with pk "2.prems"(1,2) have rest: "rest = []" and r: "r = Inr (cur @ [n])"
        by (auto simp: namei_Cons split: if_splits)
      from r True pk "2.prems"(4) have nb: "\<not> b" by auto
      have "\<exists>m. peek f cur = Inr (Dir m [])"
      proof (cases "cur = []")
        case False
        with "2.prems"(3) show ?thesis by simp
      next
        case True
        with pk \<open>er = ENOENT\<close> show ?thesis by (cases f) (simp_all add: peek_def)
      qed
      then obtain m where "peek f cur = Inr (Dir m [])" ..
      with pg [of cur] have "peek g cur = Inr (Dir m [])" by simp
      from peek_child [OF this, of n] show ?thesis
      proof
        assume "peek g (cur @ [n]) = Inl ENOENT"
        with rest r show ?thesis by (simp add: namei_Cons)
      next
        assume "\<exists>x. peek g (cur @ [n]) = Inr x"
        then obtain x where "peek g (cur @ [n]) = Inr x" ..
        with rest r nb show ?thesis by (cases x) (simp_all add: namei_Cons)
      qed
    qed
  next
    case (Inr x)
    then have pk: "peek f (cur @ [n]) = Inr (shallow x)" by (simp add: peek_def)
    with pg [of "cur @ [n]"] have pk': "peek g (cur @ [n]) = Inr (shallow x)" by simp
    show ?thesis
    proof (cases x)
      case (File m c)
      with "2.prems"(1) pk pk' show ?thesis by (simp add: namei_Cons)
    next
      case (Dir m es)
      with "2.prems"(1) pk have r: "namei k b f (cur @ [n]) rest = r"
        by (simp add: namei_Cons)
      have c: "cur @ [n] = [] \<or> (\<exists>m. peek f (cur @ [n]) = Inr (Dir m []))"
        using pk Dir by simp
      from "2.IH"(2) [OF Inr Dir r "2.prems"(2) c "2.prems"(4,5)] Dir pk' show ?thesis
        by (simp add: namei_Cons)
    next
      case (Link dst)
      show ?thesis
      proof (cases "rest = [] \<and> \<not> b")
        case True
        with "2.prems"(1) pk pk' Link show ?thesis by (simp add: namei_Cons)
      next
        case False
        show ?thesis
        proof (cases k)
          case 0
          with "2.prems"(1) pk pk' Link False show ?thesis by (auto simp: namei_Cons)
        next
          case (Suc j)
          with "2.prems"(1) pk Link False have r: "namei j b f [] (dst @ rest) = r"
            by (auto simp: namei_Cons)
          have c: "[] = [] \<or> (\<exists>m. peek f [] = Inr (Dir m []))" by simp
          from "2.IH"(1) [OF Inr Link False Suc r "2.prems"(2) c "2.prems"(4,5)]
            Link pk' False Suc
          show ?thesis by (auto simp: namei_Cons)
        qed
      qed
    qed
  qed
qed

text \<open>The system calls in terms of what a path names.\<close>

lemma seen_locate:
  "seen b fs p = (case locate b fs p of Inl e \<Rightarrow> Inl e | Inr q \<Rightarrow> peek fs q)"
  by (simp add: seen_def lookup_def peek_def split: sum.splits)

lemma Lstat_seen:
  "Lstat fs p = (case seen False fs p of Inl e \<Rightarrow> Inl e | Inr nd \<Rightarrow> Inr (info_of nd))"
  by (simp add: Lstat_def seen_def split: sum.splits)

lemma Stat_seen:
  "Stat fs p = (case seen True fs p of Inl e \<Rightarrow> Inl e | Inr nd \<Rightarrow> Inr (info_of nd))"
  by (simp add: Stat_def seen_def split: sum.splits)

lemma Readlink_seen:
  "Readlink fs p =
     (case seen False fs p of Inl e \<Rightarrow> Inl e | Inr (Link d) \<Rightarrow> Inr d | Inr nd \<Rightarrow> Inl EINVAL)"
proof (cases "lookup False fs p")
  case (Inl e)
  then show ?thesis by (simp add: Readlink_def seen_def)
next
  case (Inr nd)
  then show ?thesis by (cases nd) (simp_all add: Readlink_def seen_def)
qed

lemma seen_Link_iff: "seen b fs p = Inr (Link d) \<longleftrightarrow> lookup b fs p = Inr (Link d)"
proof (cases "lookup b fs p")
  case (Inl e)
  then show ?thesis by (simp add: seen_def)
next
  case (Inr nd)
  then show ?thesis by (cases nd) (simp_all add: seen_def)
qed

lemma seen_ext:
  assumes "ext f g" "seen b f p \<noteq> Inl ENOENT"
  shows "seen b g p = seen b f p \<and> locate b g p = locate b f p"
proof (cases "locate b f p")
  case (Inl e)
  with assms(2) have "Inl e \<noteq> (Inl ENOENT :: oserr + path)" by (auto simp: seen_locate)
  from namei_ext [OF Inl [unfolded locate_def] this _ _ assms(1)]
  have "locate b g p = Inl e" by (simp add: locate_def)
  with Inl show ?thesis by (simp add: seen_locate)
next
  case (Inr q)
  with assms(2) have pk: "peek f q \<noteq> Inl ENOENT" by (simp add: seen_locate)
  have "Inr q \<noteq> (Inl ENOENT :: oserr + path)" by simp
  from namei_ext [OF Inr [unfolded locate_def] this _ _ assms(1)] pk
  have l: "locate b g p = Inr q" by (simp add: locate_def)
  from assms(1) pk have "peek g q = peek f q" unfolding ext_def by blast
  with Inr l show ?thesis by (simp add: seen_locate)
qed

lemma Lstat_ext: "ext f g \<Longrightarrow> Lstat f p \<noteq> Inl ENOENT \<Longrightarrow> Lstat g p = Lstat f p"
  using seen_ext [of f g False p] by (auto simp: Lstat_seen split: sum.splits)

lemma Stat_ext: "ext f g \<Longrightarrow> Stat f p \<noteq> Inl ENOENT \<Longrightarrow> Stat g p = Stat f p"
  using seen_ext [of f g True p] by (auto simp: Stat_seen split: sum.splits)

lemma Readlink_ext: "ext f g \<Longrightarrow> Readlink f p \<noteq> Inl ENOENT \<Longrightarrow> Readlink g p = Readlink f p"
  using seen_ext [of f g False p] by (auto simp: Readlink_seen split: sum.splits node.splits)

text \<open>What a path names that is no link, it names with the last link followed too.\<close>

lemma seen_follow:
  assumes "seen False fs p = r" "\<forall>d. r \<noteq> Inr (Link d)"
  shows "seen True fs p = r \<and> locate True fs p = locate False fs p"
proof -
  have "\<forall>q d. locate False fs p = Inr q \<longrightarrow> peek fs q \<noteq> Inr (Link d)"
    using assms by (auto simp: seen_locate)
  from namei_follow [OF refl this [unfolded locate_def]]
  have "locate True fs p = locate False fs p" by (simp add: locate_def)
  with assms(1) show ?thesis by (simp add: seen_locate)
qed

lemma Lstat_Stat_dir:
  "Lstat fs p = Inr i \<Longrightarrow> IsDir i \<Longrightarrow> Stat fs p = Inr i"
proof -
  assume a: "Lstat fs p = Inr i" "IsDir i"
  then obtain nd where s: "seen False fs p = Inr nd" "info_of nd = i"
    by (auto simp: Lstat_seen split: sum.splits)
  with a(2) have "\<forall>d. Inr nd \<noteq> (Inr (Link d) :: oserr + node)" by (cases nd) auto
  from seen_follow [OF s(1) this] s(2) show ?thesis by (simp add: Stat_seen)
qed

lemma Lstat_Stat_err: "Lstat fs p = Inl e \<Longrightarrow> Stat fs p = Inl e"
proof -
  assume "Lstat fs p = Inl e"
  then have s: "seen False fs p = Inl e" by (auto simp: Lstat_seen split: sum.splits)
  have "\<forall>d. Inl e \<noteq> (Inr (Link d) :: oserr + node)" by simp
  from seen_follow [OF s this] show ?thesis by (simp add: Stat_seen)
qed

text \<open>The entry that \<open>create\<close> has put where a path resolved to is what the path names.\<close>

lemma create_ext:
  assumes "create f q new = Inr f'"
  shows "ext f f'"
proof -
  note s = create_spec [OF assms]
  have "peek f' x = peek f x" if "peek f x \<noteq> Inl ENOENT" for x
  proof (cases "prefix q x")
    case True
    from peek_below_ENOENT [OF s(2) True] that show ?thesis by simp
  next
    case False
    with s(3) [of x] show ?thesis by simp
  qed
  then show ?thesis by (simp add: ext_def)
qed

lemma create_seen:
  assumes "locate False f p = Inr q" "create f q new = Inr f'"
  shows "locate False f' p = Inr q" "seen False f' p = Inr (shallow new)"
proof -
  have "Inr q \<noteq> (Inl ENOENT :: oserr + path)" by simp
  from namei_ext [OF assms(1) [unfolded locate_def] this _ _ create_ext [OF assms(2)]]
  show l: "locate False f' p = Inr q" by (simp add: locate_def)
  from create_spec(3) [OF assms(2), of q] have "peek f' q = Inr (shallow new)" by simp
  with l show "seen False f' p = Inr (shallow new)" by (simp add: seen_locate)
qed

text \<open>
  Resolution in a file system that has lost entries: a path names what it named, or
  nothing.
\<close>

lemma namei_shr:
  "shr f g \<Longrightarrow>
   namei k b g cur p = namei k b f cur p \<or> namei k b g cur p = Inl ENOENT \<or>
   (\<exists>q. namei k b g cur p = Inr q \<and> peek g q = Inl ENOENT)"
proof (induction k b f cur p rule: namei.induct)
  case (1 k b f cur)
  show ?case by simp
next
  case (2 k b f cur n rest)
  from "2.prems" have "peek g (cur @ [n]) = peek f (cur @ [n]) \<or> peek g (cur @ [n]) = Inl ENOENT"
    unfolding shr_def by blast
  then show ?case
  proof
    assume gone: "peek g (cur @ [n]) = Inl ENOENT"
    then show ?thesis by (simp add: namei_Cons)
  next
    assume same: "peek g (cur @ [n]) = peek f (cur @ [n])"
    show ?thesis
    proof (cases "descend f (cur @ [n])")
      case (Inl er)
      then have "peek f (cur @ [n]) = Inl er" by (simp add: peek_def)
      with same show ?thesis by (simp add: namei_Cons)
    next
      case (Inr x)
      then have pk: "peek f (cur @ [n]) = Inr (shallow x)" by (simp add: peek_def)
      show ?thesis
      proof (cases x)
        case (File m c)
        with pk same show ?thesis by (simp add: namei_Cons)
      next
        case (Dir m es)
        from "2.IH"(2) [OF Inr Dir "2.prems"] Dir pk same show ?thesis
          by (simp add: namei_Cons)
      next
        case (Link dst)
        show ?thesis
        proof (cases "rest = [] \<and> \<not> b")
          case True
          with pk same Link show ?thesis by (simp add: namei_Cons)
        next
          case False
          show ?thesis
          proof (cases k)
            case 0
            with pk same Link False show ?thesis by (auto simp: namei_Cons)
          next
            case (Suc j)
            from "2.IH"(1) [OF Inr Link False Suc "2.prems"] Link pk same False Suc
            show ?thesis by (auto simp: namei_Cons)
          qed
        qed
      qed
    qed
  qed
qed

lemma seen_shr:
  assumes "shr f g"
  shows "(seen b g p = seen b f p \<and> locate b g p = locate b f p) \<or> seen b g p = Inl ENOENT"
proof -
  from namei_shr [OF assms, of 40 b "[]" p]
  consider "locate b g p = locate b f p" | "locate b g p = Inl ENOENT"
    | q where "locate b g p = Inr q" "peek g q = Inl ENOENT"
    by (auto simp: locate_def)
  then show ?thesis
  proof cases
    case 1
    show ?thesis
    proof (cases "locate b f p")
      case (Inl e)
      with 1 show ?thesis by (simp add: seen_locate)
    next
      case (Inr q)
      from assms have "peek g q = peek f q \<or> peek g q = Inl ENOENT"
        unfolding shr_def by blast
      with 1 Inr show ?thesis by (auto simp: seen_locate)
    qed
  qed (simp_all add: seen_locate)
qed

text \<open>
  A path that resolves and has no link on its way resolves to itself, through
  directories.
\<close>

lemma namei_no_links:
  "namei k False fs cur p = Inr q \<Longrightarrow>
   (\<forall>p' d. strict_prefix p' p \<and> p' \<noteq> [] \<longrightarrow> peek fs (cur @ p') \<noteq> Inr (Link d)) \<Longrightarrow>
   q = cur @ p \<and>
   (\<forall>p'. strict_prefix p' p \<and> p' \<noteq> [] \<longrightarrow> (\<exists>m. peek fs (cur @ p') = Inr (Dir m [])))"
proof (induction p arbitrary: cur)
  case Nil
  then show ?case by simp
next
  case (Cons n rest)
  show ?case
  proof (cases "rest = []")
    case True
    have "namei k False fs cur [n] = Inr q \<Longrightarrow> q = cur @ [n]"
      by (auto simp: namei_Cons split: sum.splits node.splits if_splits)
    with Cons.prems(1) True show ?thesis by (auto simp: strict_prefix_def prefix_Cons)
  next
    case False
    then have sp: "strict_prefix [n] (n # rest)" by (auto simp: strict_prefix_def)
    with Cons.prems(2) have nl: "\<forall>d. peek fs (cur @ [n]) \<noteq> Inr (Link d)" by blast
    with Cons.prems(1) False obtain m
      where d: "peek fs (cur @ [n]) = Inr (Dir m [])"
        and r: "namei k False fs (cur @ [n]) rest = Inr q"
    proof (cases "peek fs (cur @ [n])")
      case (Inl e)
      with Cons.prems(1) False that show ?thesis by (simp add: namei_Cons)
    next
      case (Inr x)
      show ?thesis
      proof (cases x)
        case (Dir m es)
        with Inr peek_Dir_empty have "peek fs (cur @ [n]) = Inr (Dir m [])" by blast
        with Cons.prems(1) that show ?thesis by (simp add: namei_Cons)
      qed (use Inr Cons.prems(1) False nl in \<open>auto simp: namei_Cons\<close>)
    qed
    have h: "\<forall>p' d. strict_prefix p' rest \<and> p' \<noteq> [] \<longrightarrow> peek fs ((cur @ [n]) @ p') \<noteq> Inr (Link d)"
    proof (intro allI impI)
      fix p' d assume "strict_prefix p' rest \<and> p' \<noteq> []"
      then have "strict_prefix (n # p') (n # rest) \<and> n # p' \<noteq> []"
        by (auto simp: strict_prefix_def)
      with Cons.prems(2) have "peek fs (cur @ n # p') \<noteq> Inr (Link d)" by blast
      then show "peek fs ((cur @ [n]) @ p') \<noteq> Inr (Link d)" by simp
    qed
    from Cons.IH [OF r h] have q: "q = (cur @ [n]) @ rest"
      and ds: "\<forall>p'. strict_prefix p' rest \<and> p' \<noteq> [] \<longrightarrow> (\<exists>m. peek fs ((cur @ [n]) @ p') = Inr (Dir m []))"
      by blast+
    have "\<exists>m. peek fs (cur @ p') = Inr (Dir m [])"
      if "strict_prefix p' (n # rest) \<and> p' \<noteq> []" for p'
    proof -
      from that obtain r' where p': "p' = n # r'" "strict_prefix r' rest"
        by (cases p') (auto simp: strict_prefix_def)
      show ?thesis
      proof (cases "r' = []")
        case True
        with p' d show ?thesis by auto
      next
        case False
        with ds p' have "\<exists>m. peek fs ((cur @ [n]) @ r') = Inr (Dir m [])" by blast
        with p' show ?thesis by simp
      qed
    qed
    with q show ?thesis by simp
  qed
qed

text \<open>Through directories a path resolves to itself.\<close>

lemma namei_dirs:
  "(\<forall>p'. strict_prefix p' p \<and> p' \<noteq> [] \<longrightarrow> (\<exists>m. peek fs (cur @ p') = Inr (Dir m []))) \<Longrightarrow>
   cur = [] \<or> (\<exists>m. peek fs cur = Inr (Dir m [])) \<Longrightarrow>
   peek fs (cur @ p) \<noteq> Inl ENOTDIR \<Longrightarrow>
   namei k False fs cur p = Inr (cur @ p)"
proof (induction p arbitrary: cur)
  case Nil
  then show ?case by simp
next
  case (Cons n rest)
  show ?case
  proof (cases "rest = []")
    case True
    show ?thesis
    proof (cases "peek fs (cur @ [n])")
      case (Inl e)
      with peek_Inl_cases Cons.prems(3) True have "e = ENOENT" by fastforce
      with Inl True show ?thesis by (simp add: namei_Cons)
    next
      case (Inr x)
      with True show ?thesis by (cases x) (simp_all add: namei_Cons)
    qed
  next
    case False
    then have "strict_prefix [n] (n # rest) \<and> [n] \<noteq> []" by (auto simp: strict_prefix_def)
    with Cons.prems(1) obtain m where d: "peek fs (cur @ [n]) = Inr (Dir m [])" by blast
    have h: "\<forall>p'. strict_prefix p' rest \<and> p' \<noteq> [] \<longrightarrow> (\<exists>m. peek fs ((cur @ [n]) @ p') = Inr (Dir m []))"
    proof (intro allI impI)
      fix p' assume "strict_prefix p' rest \<and> p' \<noteq> []"
      then have "strict_prefix (n # p') (n # rest) \<and> n # p' \<noteq> []"
        by (auto simp: strict_prefix_def)
      with Cons.prems(1) have "\<exists>m. peek fs (cur @ n # p') = Inr (Dir m [])" by blast
      then show "\<exists>m. peek fs ((cur @ [n]) @ p') = Inr (Dir m [])" by simp
    qed
    have c: "cur @ [n] = [] \<or> (\<exists>m. peek fs (cur @ [n]) = Inr (Dir m []))" using d by simp
    have x: "peek fs ((cur @ [n]) @ rest) \<noteq> Inl ENOTDIR" using Cons.prems(3) by simp
    from Cons.IH [OF h c x] d show ?thesis by (simp add: namei_Cons)
  qed
qed

text \<open>
  Resolution in a file system that has grown by directories only, looked at from the
  larger one: the place a path resolves to there is the place it resolved to before, or
  a place that held nothing before.
\<close>

lemma namei_back:
  "namei k False g cur p = Inr q \<Longrightarrow>
   (\<forall>x. peek g x = peek f x \<or> (peek f x = Inl ENOENT \<and> (\<exists>m. peek g x = Inr (Dir m [])))) \<Longrightarrow>
   namei k False f cur p = Inr q \<or> peek f q = Inl ENOENT"
proof (induction k "False" g cur p rule: namei.induct)
  case (1 k g cur)
  then show ?case by simp
next
  case (2 k g cur n rest)
  from "2.prems"(2)
  have G: "peek g x = peek f x \<or> (peek f x = Inl ENOENT \<and> (\<exists>m. peek g x = Inr (Dir m [])))" for x
    by blast
  show ?case
  proof (cases "peek g (cur @ [n]) = peek f (cur @ [n])")
    case same: True
    show ?thesis
    proof (cases "descend g (cur @ [n])")
      case (Inl er)
      then have pg: "peek g (cur @ [n]) = Inl er" by (simp add: peek_def)
      with same have pf: "peek f (cur @ [n]) = Inl er" by simp
      from pg pf "2.prems"(1) show ?thesis by (simp add: namei_Cons)
    next
      case (Inr x)
      then have pk: "peek g (cur @ [n]) = Inr (shallow x)" by (simp add: peek_def)
      with same have pf: "peek f (cur @ [n]) = Inr (shallow x)" by simp
      show ?thesis
      proof (cases x)
        case (File m c)
        with pk pf "2.prems"(1) show ?thesis by (simp add: namei_Cons)
      next
        case (Dir m es)
        with pk "2.prems"(1) have r: "namei k False g (cur @ [n]) rest = Inr q"
          by (simp add: namei_Cons)
        from "2.hyps"(2) [OF Inr Dir r "2.prems"(2)] Dir pf show ?thesis
          by (simp add: namei_Cons)
      next
        case (Link dst)
        show ?thesis
        proof (cases "rest = []")
          case True
          with pk pf Link "2.prems"(1) show ?thesis by (simp add: namei_Cons)
        next
          case False
          show ?thesis
          proof (cases k)
            case 0
            with pk Link False "2.prems"(1) show ?thesis by (simp add: namei_Cons)
          next
            case (Suc j)
            with pk Link False "2.prems"(1) have r: "namei j False g [] (dst @ rest) = Inr q"
              by (simp add: namei_Cons)
            have nf: "\<not> (rest = [] \<and> \<not> False)" using False by simp
            from "2.hyps"(1) [OF Inr Link nf Suc r "2.prems"(2)] Link pf False Suc
            show ?thesis by (simp add: namei_Cons)
          qed
        qed
      qed
    qed
  next
    case False
    with G [of "cur @ [n]"] obtain m where old: "peek f (cur @ [n]) = Inl ENOENT"
      and new: "peek g (cur @ [n]) = Inr (Dir m [])"
      by auto
    from new "2.prems"(1) have r: "namei k False g (cur @ [n]) rest = Inr q"
      by (simp add: namei_Cons)
    have nl: "\<forall>p' d. strict_prefix p' rest \<and> p' \<noteq> [] \<longrightarrow> peek g ((cur @ [n]) @ p') \<noteq> Inr (Link d)"
    proof (intro allI impI)
      fix p' d
      have "peek f ((cur @ [n]) @ p') = Inl ENOENT"
        by (rule peek_below_ENOENT [OF old]) simp
      with G [of "(cur @ [n]) @ p'"] show "peek g ((cur @ [n]) @ p') \<noteq> Inr (Link d)" by auto
    qed
    from namei_no_links [OF r nl] have "q = (cur @ [n]) @ rest" by blast
    then have "prefix (cur @ [n]) q" by simp
    from peek_below_ENOENT [OF old this] show ?thesis by simp
  qed
qed

section \<open>Facts about the walk\<close>

lemma walk_errors:
  assumes "\<And>path info err fs e fs'. fn path info err fs = (Some e, fs') \<Longrightarrow> P e"
  shows "walk n fn path info fs = (Returned (Some e), fs') \<Longrightarrow> P e"
    and "walk_names n fn path names fs = (Returned (Some e), fs') \<Longrightarrow> P e"
  using assms
proof (induction n fn path info fs and n fn path names fs arbitrary: e fs' and e fs'
    rule: walk_walk_names.induct)
  case (1 walkFn path info fs)
  then show ?case
    by (auto split: if_splits prod.splits)
next
  case (2 k walkFn path info fs)
  then show ?case
    by (auto split: if_splits prod.splits sum.splits option.splits)
next
  case (3 n walkFn path fs)
  then show ?case by simp
next
  case (4 n walkFn path name names fs)
  then show ?case
    by (auto split: if_splits prod.splits sum.splits option.splits outcome.splits)
qed

lemma Walk_errors:
  assumes "\<And>path info err fs e fs'. fn path info err fs = (Some e, fs') \<Longrightarrow> P e"
  shows "Walk n fn root fs = (Returned (Some e), fs') \<Longrightarrow> P e"
  using assms walk_errors(1) [of fn P n root _ fs e fs']
  by (auto simp: Walk_def split: sum.splits prod.splits)

lemma createSymlink_error:
  "createSymlink um config src t fs = (Some e, fs') \<Longrightarrow> walk_error e"
  by (auto simp: createSymlink_def Let_def split: sum.splits if_splits prod.splits option.splits)

lemma removeSymlink_error:
  "removeSymlink config src t fs = (Some e, fs') \<Longrightarrow> walk_error e"
  by (auto simp: removeSymlink_def split: sum.splits if_splits)

lemma symPackage_fn_error:
  "symPackage_fn um config pkgPath path info err fs = (Some e, fs') \<Longrightarrow> walk_error e"
  by (auto simp: symPackage_fn_def Let_def dest: createSymlink_error
      split: sum.splits if_splits prod.splits option.splits)

lemma unsymPackage_fn_error:
  "unsymPackage_fn config pkgPath path info err fs = (Some e, fs') \<Longrightarrow> walk_error e"
  by (auto simp: unsymPackage_fn_def Let_def dest: removeSymlink_error
      split: sum.splits if_splits prod.splits option.splits)

lemma symPackage_error:
  "symPackage um n config pkg pkgPath fs = (Returned (Some e), fs') \<Longrightarrow> walk_error e"
  unfolding symPackage_def by (rule Walk_errors [where P = walk_error]) (rule symPackage_fn_error)

lemma unsymPackage_error:
  "unsymPackage n config pkg pkgPath fs = (Returned (Some e), fs') \<Longrightarrow> walk_error e"
  unfolding unsymPackage_def by (rule Walk_errors [where P = walk_error]) (rule unsymPackage_fn_error)

text \<open>A reflexive and transitive relation kept by every call of the callback is kept by the walk.\<close>

lemma walk_rel:
  assumes "\<And>f. R f f"
    and "\<And>f g h. R f g \<Longrightarrow> R g h \<Longrightarrow> R f h"
    and "\<And>path info err f r f'. fn path info err f = (r, f') \<Longrightarrow> R f f'"
  shows "walk n fn path info fs = (out, fs') \<Longrightarrow> R fs fs'"
    and "walk_names n fn path names fs = (out, fs') \<Longrightarrow> R fs fs'"
  using assms
proof (induction n fn path info fs and n fn path names fs arbitrary: out fs' and out fs'
    rule: walk_walk_names.induct)
  case (1 walkFn path info fs)
  show ?case
  proof (cases "IsDir info")
    case True
    with "1.prems"(1) have "fs' = fs" by simp
    then show ?thesis using "1.prems"(2) by simp
  next
    case False
    with "1.prems"(1) obtain r where "walkFn path (Some info) None fs = (r, fs')"
      by (auto split: prod.splits)
    then show ?thesis by (rule "1.prems"(4))
  qed
next
  case (2 k walkFn path info fs)
  show ?case
  proof (cases "IsDir info")
    case False
    with "2.prems"(1) obtain r where "walkFn path (Some info) None fs = (r, fs')"
      by (auto split: prod.splits)
    then show ?thesis by (rule "2.prems"(4))
  next
    case True
    then have nn: "\<not> \<not> IsDir info" by simp
    show ?thesis
    proof (cases "readDirNames fs path")
      case (Inl err)
      with True "2.prems"(1) obtain r where "walkFn path (Some info) (Some err) fs = (r, fs')"
        by (auto split: prod.splits)
      then show ?thesis by (rule "2.prems"(4))
    next
      case (Inr names)
      obtain r f1 where c: "walkFn path (Some info) None fs = (r, f1)"
        by (cases "walkFn path (Some info) None fs")
      have s: "R fs f1" by (rule "2.prems"(4) [OF c])
      show ?thesis
      proof (cases r)
        case (Some e)
        with True Inr c "2.prems"(1) have "fs' = f1" by simp
        with s show ?thesis by simp
      next
        case None
        with True Inr c "2.prems"(1) have w: "walk_names k walkFn path names f1 = (out, fs')"
          by simp
        have "R f1 fs'"
          by (rule "2.IH" [OF nn Inr c [symmetric] None w "2.prems"(2,3,4)])
        with s show ?thesis by (rule "2.prems"(3))
      qed
    qed
  qed
next
  case (3 n walkFn path fs)
  then show ?case by simp
next
  case (4 n walkFn path name names fs)
  show ?case
  proof (cases "Lstat fs (Join path [name])")
    case (Inl err)
    obtain r f1 where c: "walkFn (Join path [name]) None (Some err) fs = (r, f1)"
      by (cases "walkFn (Join path [name]) None (Some err) fs")
    have s: "R fs f1" by (rule "4.prems"(4) [OF c])
    show ?thesis
    proof (cases r)
      case (Some e)
      with Inl c "4.prems"(1) have "fs' = f1" by simp
      with s show ?thesis by simp
    next
      case None
      with Inl c "4.prems"(1) have w: "walk_names n walkFn path names f1 = (out, fs')" by simp
      have "R f1 fs'"
        by (rule "4.IH"(1) [OF Inl c [symmetric] None w "4.prems"(2,3,4)])
      with s show ?thesis by (rule "4.prems"(3))
    qed
  next
    case (Inr fileInfo)
    obtain o1 f1 where c: "walk n walkFn (Join path [name]) fileInfo fs = (o1, f1)"
      by (cases "walk n walkFn (Join path [name]) fileInfo fs")
    have s: "R fs f1"
      by (rule "4.IH"(2) [OF Inr c "4.prems"(2,3,4)])
    show ?thesis
    proof (cases "o1 = Returned None")
      case True
      with Inr c "4.prems"(1) have w: "walk_names n walkFn path names f1 = (out, fs')" by simp
      have "R f1 fs'"
        by (rule "4.IH"(3) [OF Inr c [symmetric] True refl w "4.prems"(2,3,4)])
      with s show ?thesis by (rule "4.prems"(3))
    next
      case False
      with Inr c "4.prems"(1) have "fs' = f1"
        by (auto split: outcome.splits option.splits)
      with s show ?thesis by simp
    qed
  qed
qed

lemma Walk_rel:
  assumes "\<And>f. R f f"
    and "\<And>f g h. R f g \<Longrightarrow> R g h \<Longrightarrow> R f h"
    and "\<And>path info err f r f'. fn path info err f = (r, f') \<Longrightarrow> R f f'"
    and "Walk n fn root fs = (out, fs')"
  shows "R fs fs'"
proof (cases "Lstat fs root")
  case (Inl err)
  with assms(4) obtain r where "fn root None (Some err) fs = (r, fs')"
    by (auto simp: Walk_def split: prod.splits)
  then show ?thesis by (rule assms(3))
next
  case (Inr info)
  with assms(4) have w: "walk n fn root info fs = (out, fs')"
    by (simp add: Walk_def)
  show ?thesis
    by (rule walk_rel(1) [of R fn n root info fs out fs', OF assms(1) assms(2) assms(3) w])
qed


section \<open>Facts about unlinking\<close>

lemma Rel_Inr: "Rel basepath targpath = Inr rel \<Longrightarrow> targpath = basepath @ rel"
  by (auto simp: Rel_def prefix_def split: if_splits)

lemma removeSymlink_cases:
  assumes "removeSymlink config src t fs = (r, fs')"
  shows "fs' = fs \<or>
         (\<exists>q. locate False fs t = Inr q \<and> descend fs q = Inr (Link src) \<and> q \<noteq> [] \<and>
              \<not> Simulate config \<and> r = None \<and> fs' = del q fs)"
proof (cases "locate False fs t")
  case (Inl e)
  with assms show ?thesis
    by (auto simp: removeSymlink_def Lstat_def lookup_def split: if_splits)
next
  case (Inr q)
  show ?thesis
  proof (cases "descend fs q")
    case (Inl e)
    with Inr assms show ?thesis
      by (auto simp: removeSymlink_def Lstat_def lookup_def split: if_splits)
  next
    case d: (Inr nd)
    show ?thesis
    proof (cases nd)
      case (Link dst)
      with Inr d assms show ?thesis
        by (cases "q = []")
           (auto simp: removeSymlink_def Lstat_def Readlink_def Remove_def lookup_def
                 split: if_splits)
    qed (use Inr d assms in \<open>auto simp: removeSymlink_def Lstat_def lookup_def\<close>)
  qed
qed

lemma unlinked_refl: "unlinked pkgPath f f"
  by (simp add: unlinked_def)

lemma unlinked_trans:
  assumes "unlinked pkgPath f g" "unlinked pkgPath g h"
  shows "unlinked pkgPath f h"
  unfolding unlinked_def
proof
  fix q
  let ?M = "\<lambda>x. peek x q = Inl ENOTDIR \<or>
      (\<exists>rel. rel \<noteq> [] \<and> peek x q = Inr (Link (Join pkgPath rel)))"
  from assms(1) have a: "peek g q = peek f q \<or> (peek g q = Inl ENOENT \<and> ?M f)"
    by (simp add: unlinked_def)
  from assms(2) have b: "peek h q = peek g q \<or> (peek h q = Inl ENOENT \<and> ?M g)"
    by (simp add: unlinked_def)
  show "peek h q = peek f q \<or> (peek h q = Inl ENOENT \<and> ?M f)"
  proof (cases "peek g q = peek f q")
    case True
    with b show ?thesis by simp
  next
    case False
    with a have g: "peek g q = Inl ENOENT" and m: "?M f" by blast+
    from b g have "peek h q = Inl ENOENT" by auto
    with m show ?thesis by blast
  qed
qed

lemma unlinked_shr: "unlinked pkgPath f g \<Longrightarrow> shr f g"
  unfolding unlinked_def shr_def by blast

lemma del_Link_unlinked:
  assumes "descend fs t = Inr (Link (Join pkgPath rel))" "rel \<noteq> []" "t \<noteq> []"
  shows "unlinked pkgPath fs (del t fs)"
  unfolding unlinked_def
proof
  fix q
  have pd: "peek (del t fs) q = (if prefix t q then Inl ENOENT else peek fs q)"
    by (rule peek_del [OF assms(3) assms(1)])
  have pk: "peek fs t = Inr (Link (Join pkgPath rel))"
    using assms(1) by (simp add: peek_Link_iff)
  show "peek (del t fs) q = peek fs q \<or>
        (peek (del t fs) q = Inl ENOENT \<and>
         (peek fs q = Inl ENOTDIR \<or>
          (\<exists>rel. rel \<noteq> [] \<and> peek fs q = Inr (Link (Join pkgPath rel)))))"
  proof (cases "prefix t q")
    case False
    with pd show ?thesis by simp
  next
    case True
    show ?thesis
    proof (cases "q = t")
      case True
      with pd pk assms(2) show ?thesis by auto
    next
      case False
      with True have "strict_prefix t q" by (simp add: strict_prefix_def)
      with pk have "peek fs q = Inl ENOTDIR"
        by (intro peek_below_nondir [of fs t]) auto
      with pd True show ?thesis by simp
    qed
  qed
qed

lemma unsymPackage_fn_cases:
  assumes "unsymPackage_fn config pkgPath path info err fs = (r, fs')"
  shows "fs' = fs \<or>
         (\<exists>rel q. rel \<noteq> [] \<and> path = Join pkgPath rel \<and> \<not> Simulate config \<and> r = None \<and>
                locate False fs (Join (TargetDir config) rel) = Inr q \<and>
                descend fs q = Inr (Link (Join pkgPath rel)) \<and> q \<noteq> [] \<and> fs' = del q fs)"
proof (cases "fs' = fs")
  case False
  with assms obtain rel i where rel: "Rel pkgPath path = Inr rel" "path \<noteq> pkgPath"
    and rm: "removeSymlink config path (Join (TargetDir config) rel) fs = (r, fs')"
    by (auto simp: unsymPackage_fn_def Let_def split: option.splits if_splits sum.splits)
  from Rel_Inr [OF rel(1)] rel(2) have p: "path = Join pkgPath rel" "rel \<noteq> []"
    by (auto simp: Join_def)
  from removeSymlink_cases [OF rm] False p show ?thesis by blast
qed simp

lemma unsymPackage_fn_unlinked:
  assumes "unsymPackage_fn config pkgPath path info err fs = (r, fs')"
  shows "unlinked pkgPath fs fs'"
  using unsymPackage_fn_cases [OF assms] del_Link_unlinked [of fs _ pkgPath] unlinked_refl
  by auto

lemma unsymPackage_unlinked:
  assumes "unsymPackage n config pkg pkgPath fs = (out, fs')"
  shows "unlinked pkgPath fs fs'"
proof (rule Walk_rel [of "unlinked pkgPath" "unsymPackage_fn config pkgPath" n pkgPath fs out fs'])
  show "unlinked pkgPath f f" for f by (rule unlinked_refl)
  show "unlinked pkgPath f h"
    if "unlinked pkgPath f g" "unlinked pkgPath g h" for f g h
    using that by (rule unlinked_trans)
  show "unlinked pkgPath f f'"
    if "unsymPackage_fn config pkgPath path info err f = (r, f')" for path info err f r f'
    using that by (rule unsymPackage_fn_unlinked)
  show "Walk n (unsymPackage_fn config pkgPath) pkgPath fs = (out, fs')"
    using assms by (simp add: unsymPackage_def)
qed

section \<open>Facts about \<open>MkdirAll\<close>\<close>

declare MkdirAll_rev.simps [simp del]

lemma MkdirAll_rev_Inr:
  "Stat fs (rev rp) = Inr dir \<Longrightarrow>
   MkdirAll_rev um fs rp perm = (if IsDir dir then (None, fs) else (Some ENOTDIR, fs))"
  by (subst MkdirAll_rev.simps) simp

lemma Stat_Nil: "Stat fs [] = Inr (info_of fs)"
  by (simp add: Stat_def lookup_def locate_def)

lemma MkdirAll_rev_Nil: "snd (MkdirAll_rev um fs [] perm) = fs"
  by (simp add: MkdirAll_rev_Inr [of fs "[]", simplified, OF Stat_Nil])

lemma MkdirAll_rev_Cons_Inl:
  "Stat fs (rev (n # rq)) = Inl e \<Longrightarrow>
   MkdirAll_rev um fs (n # rq) perm =
     (case MkdirAll_rev um fs rq perm of
        (Some e, fs1) \<Rightarrow> (Some e, fs1)
      | (None, fs1) \<Rightarrow>
          (case Mkdir um fs1 (rev (n # rq)) perm of
             Inr fs2 \<Rightarrow> (None, fs2)
           | Inl e \<Rightarrow>
               (case Lstat fs1 (rev (n # rq)) of
                  Inr dir \<Rightarrow> (if IsDir dir then (None, fs1) else (Some e, fs1))
                | Inl e1 \<Rightarrow> (Some e, fs1))))"
  by (subst MkdirAll_rev.simps) simp

text \<open>The three ways a call with a missing path can end.\<close>

lemma MkdirAll_rev_Cons_cases:
  assumes "Stat fs (rev (n # rq)) = Inl e" "MkdirAll_rev um fs (n # rq) perm = (r, fs')"
  obtains (parent) e1 where "MkdirAll_rev um fs rq perm = (Some e1, fs')" "r = Some e1"
  | (made) fs1 where "MkdirAll_rev um fs rq perm = (None, fs1)"
      "Mkdir um fs1 (rev (n # rq)) perm = Inr fs'" "r = None"
  | (kept) e2 where "MkdirAll_rev um fs rq perm = (None, fs')"
      "Mkdir um fs' (rev (n # rq)) perm = Inl e2"
      "r = None \<longrightarrow> (\<exists>dir. Lstat fs' (rev (n # rq)) = Inr dir \<and> IsDir dir)"
proof -
  obtain r1 fs1 where p: "MkdirAll_rev um fs rq perm = (r1, fs1)"
    by (cases "MkdirAll_rev um fs rq perm")
  show thesis
  proof (cases r1)
    case (Some e1)
    with assms p have "fs' = fs1" "r = Some e1"
      by (simp_all add: MkdirAll_rev_Cons_Inl)
    with p Some show thesis by (intro parent [of e1]) simp_all
  next
    case None
    show thesis
    proof (cases "Mkdir um fs1 (rev (n # rq)) perm")
      case (Inr fs2)
      with assms p None have "fs' = fs2" "r = None"
        by (simp_all add: MkdirAll_rev_Cons_Inl)
      with p None Inr show thesis by (intro made [of fs1]) simp_all
    next
      case (Inl e2)
      with assms p None have f: "fs' = fs1"
        by (auto simp: MkdirAll_rev_Cons_Inl split: sum.splits if_splits)
      from Inl assms p None
      have "r = None \<longrightarrow> (\<exists>dir. Lstat fs1 (rev (n # rq)) = Inr dir \<and> IsDir dir)"
        by (auto simp: MkdirAll_rev_Cons_Inl split: sum.splits if_splits)
      with p None Inl f show thesis by (intro kept [of e2]) simp_all
    qed
  qed
qed

lemma Mkdir_Inr:
  assumes "Mkdir um fs p perm = Inr fs'"
  obtains q where "locate False fs p = Inr q"
    "create fs q (Dir (apply_umask um perm) []) = Inr fs'"
  using assms by (auto simp: Mkdir_def split: sum.splits)

text \<open>What \<open>MkdirAll\<close> changes: places that held nothing now hold an empty directory
  with the permission bits asked for, less those of the umask.\<close>

lemma MkdirAll_rev_grows:
  "MkdirAll_rev um fs rp perm = (r, fs') \<Longrightarrow>
   peek fs' q = peek fs q \<or>
   (peek fs q = Inl ENOENT \<and> peek fs' q = Inr (Dir (apply_umask um perm) []))"
proof (induction rp arbitrary: r fs' q)
  case Nil
  then have "fs' = fs" using MkdirAll_rev_Nil [of um fs perm] by simp
  then show ?case by simp
next
  case (Cons n rq)
  let ?p = "rev (n # rq)"
  let ?d = "Dir (apply_umask um perm) []"
  show ?case
  proof (cases "Stat fs ?p")
    case (Inr dir)
    with Cons.prems have "fs' = fs"
      by (simp add: MkdirAll_rev_Inr split: if_splits)
    then show ?thesis by simp
  next
    case (Inl e)
    from Inl Cons.prems show ?thesis
    proof (cases rule: MkdirAll_rev_Cons_cases)
      case (parent e1)
      from Cons.IH [OF parent(1), of q] show ?thesis .
    next
      case (kept e2)
      from Cons.IH [OF kept(1), of q] show ?thesis .
    next
      case (made fs1)
      from made(2) obtain t where cr: "create fs1 t ?d = Inr fs'"
        by (rule Mkdir_Inr)
      note sp = create_spec [OF cr]
      have ih: "peek fs1 q = peek fs q \<or> (peek fs q = Inl ENOENT \<and> peek fs1 q = Inr ?d)" for q
        using Cons.IH [OF made(1), of q] .
      show ?thesis
      proof (cases "prefix t q")
        case False
        with sp(3) [of q] have "peek fs' q = peek fs1 q" by simp
        with ih [of q] show ?thesis by auto
      next
        case True
        show ?thesis
        proof (cases "q = t")
          case True
          with sp(3) [of q] have "peek fs' q = Inr ?d" by simp
          moreover from ih [of t] sp(2) have "peek fs t = Inl ENOENT" by auto
          ultimately show ?thesis using True by simp
        next
          case False
          with True obtain x xs where "q = t @ x # xs"
            by (auto simp: prefix_def) (metis list.exhaust append_Nil2)
          with sp(3) [of q] have a: "peek fs' q = Inl ENOENT" by simp
          from sp(2) True have "peek fs1 q = Inl ENOENT" by (rule peek_below_ENOENT)
          with a ih [of q] show ?thesis by auto
        qed
      qed
    qed
  qed
qed

lemma MkdirAll_rev_ext: "MkdirAll_rev um fs rp perm = (r, fs') \<Longrightarrow> ext fs fs'"
  unfolding ext_def using MkdirAll_rev_grows [of um fs rp perm r fs'] by metis

text \<open>The directory that \<open>Mkdir\<close> has made is what the path names afterwards.\<close>

lemma Mkdir_seen:
  assumes "Mkdir um fs p perm = Inr fs'"
  shows "seen False fs' p = Inr (Dir (apply_umask um perm) [])"
    and "seen True fs' p = Inr (Dir (apply_umask um perm) [])"
proof -
  from assms obtain q where l: "locate False fs p = Inr q"
    and cr: "create fs q (Dir (apply_umask um perm) []) = Inr fs'"
    by (rule Mkdir_Inr)
  from create_seen(2) [OF l cr]
  show a: "seen False fs' p = Inr (Dir (apply_umask um perm) [])" by simp
  have "\<forall>d. Inr (Dir (apply_umask um perm) []) \<noteq> (Inr (Link d) :: oserr + node)" by simp
  from seen_follow [OF a this]
  show "seen True fs' p = Inr (Dir (apply_umask um perm) [])" by simp
qed

lemma MkdirAll_rev_made:
  assumes "MkdirAll_rev um fs rp perm = (None, fs')" "Stat fs (rev rp) = Inl e"
  shows "\<exists>i. Lstat fs' (rev rp) = Inr i \<and> Stat fs' (rev rp) = Inr i \<and> IsDir i \<and> \<not> IsSymlink i"
proof (cases rp)
  case Nil
  with assms(2) show ?thesis by (simp add: Stat_Nil)
next
  case (Cons n rq)
  let ?p = "rev (n # rq)"
  from assms Cons have s': "Stat fs ?p = Inl e"
    and a': "MkdirAll_rev um fs (n # rq) perm = (None, fs')"
    by simp_all
  from s' a'
  have "\<exists>i. Lstat fs' ?p = Inr i \<and> Stat fs' ?p = Inr i \<and> IsDir i \<and> \<not> IsSymlink i"
  proof (cases rule: MkdirAll_rev_Cons_cases)
    case (parent e1)
    then show ?thesis by simp
  next
    case (made fs1)
    from Mkdir_seen [OF made(2)] show ?thesis
      by (simp add: Lstat_seen Stat_seen)
  next
    case (kept e2)
    then obtain dir where d: "Lstat fs' ?p = Inr dir" "IsDir dir" by blast
    from Lstat_Stat_dir [OF d] d have "Stat fs' ?p = Inr dir" by simp
    moreover have "IsDir (info_of x) \<Longrightarrow> \<not> IsSymlink (info_of x)" for x
      by (cases x) auto
    with d have "\<not> IsSymlink dir"
      by (auto simp: Lstat_seen split: sum.splits)
    ultimately show ?thesis using d by simp
  qed
  with Cons show ?thesis by simp
qed

lemma MkdirAll_rev_ok:
  assumes "MkdirAll_rev um fs rp perm = (None, fs')"
  shows "\<exists>i. Stat fs' (rev rp) = Inr i \<and> IsDir i"
proof (cases "Stat fs (rev rp)")
  case (Inl e)
  from MkdirAll_rev_made [OF assms Inl] show ?thesis by blast
next
  case (Inr dir)
  with assms show ?thesis by (auto simp: MkdirAll_rev_Inr split: if_splits)
qed

lemma MkdirAll_grows:
  "MkdirAll um fs p perm = (r, fs') \<Longrightarrow>
   peek fs' q = peek fs q \<or>
   (peek fs q = Inl ENOENT \<and> peek fs' q = Inr (Dir (apply_umask um perm) []))"
  unfolding MkdirAll_def by (rule MkdirAll_rev_grows)

lemma MkdirAll_ext: "MkdirAll um fs p perm = (r, fs') \<Longrightarrow> ext fs fs'"
  unfolding MkdirAll_def by (rule MkdirAll_rev_ext)

lemma MkdirAll_made:
  "MkdirAll um fs p perm = (None, fs') \<Longrightarrow> Stat fs p = Inl e \<Longrightarrow>
   \<exists>i. Lstat fs' p = Inr i \<and> Stat fs' p = Inr i \<and> IsDir i \<and> \<not> IsSymlink i"
  unfolding MkdirAll_def using MkdirAll_rev_made [of um fs "rev p" perm fs' e] by simp

lemma MkdirAll_ok:
  "MkdirAll um fs p perm = (None, fs') \<Longrightarrow> \<exists>i. Stat fs' p = Inr i \<and> IsDir i"
  unfolding MkdirAll_def using MkdirAll_rev_ok [of um fs "rev p" perm fs'] by simp

text \<open>The directory that \<open>MkdirAll\<close> leaves where \<open>Stat\<close> found nothing is one it has made.\<close>

lemma MkdirAll_made_mode:
  assumes "MkdirAll um fs p perm = (None, fs')" "Stat fs p = Inl e"
  shows "Lstat fs' p = Inr (FileInfo True False (apply_umask um perm))"
    and "Stat fs' p = Inr (FileInfo True False (apply_umask um perm))"
proof -
  from MkdirAll_made [OF assms] obtain i where i: "Lstat fs' p = Inr i" "Stat fs' p = Inr i"
    "IsDir i" "\<not> IsSymlink i"
    by blast
  from i(1) obtain q nd where l: "locate False fs' p = Inr q" and pk: "peek fs' q = Inr nd"
    and nd: "info_of nd = i"
    by (auto simp: Lstat_seen seen_locate split: sum.splits)
  have g: "peek fs' x = peek fs x \<or>
      (peek fs x = Inl ENOENT \<and> peek fs' x = Inr (Dir (apply_umask um perm) []))" for x
    by (rule MkdirAll_grows [OF assms(1)])
  then have G: "\<forall>x. peek fs' x = peek fs x \<or>
      (peek fs x = Inl ENOENT \<and> (\<exists>m. peek fs' x = Inr (Dir m [])))"
    by blast
  from namei_back [OF l [unfolded locate_def] G]
  have "locate False fs p = Inr q \<or> peek fs q = Inl ENOENT" by (simp add: locate_def)
  moreover have "peek fs q = Inl ENOENT" if lf: "locate False fs p = Inr q"
  proof (rule ccontr)
    assume ne: "peek fs q \<noteq> Inl ENOENT"
    with g [of q] pk have same: "peek fs q = Inr nd" by auto
    with lf have s: "seen False fs p = Inr nd" by (simp add: seen_locate)
    from nd i(4) have "\<forall>d. Inr nd \<noteq> (Inr (Link d) :: oserr + node)" by auto
    from seen_follow [OF s this] have "Stat fs p = Inr (info_of nd)" by (simp add: Stat_seen)
    with assms(2) show False by simp
  qed
  ultimately have "peek fs q = Inl ENOENT" by blast
  with g [of q] pk have "nd = Dir (apply_umask um perm) []" by auto
  with nd i show "Lstat fs' p = Inr (FileInfo True False (apply_umask um perm))"
    and "Stat fs' p = Inr (FileInfo True False (apply_umask um perm))"
    by auto
qed

section \<open>Facts about linking\<close>

lemma linked_refl: "linked pkgPath f f"
  by (simp add: linked_def)

lemma linked_trans:
  assumes "linked pkgPath f g" "linked pkgPath g h"
  shows "linked pkgPath f h"
  unfolding linked_def
proof
  fix q
  let ?N = "\<lambda>x. peek x q = Inl ENOTDIR \<or> (\<exists>m. peek x q = Inr (Dir m [])) \<or>
      (\<exists>rel. rel \<noteq> [] \<and> peek x q = Inr (Link (Join pkgPath rel)))"
  from assms(1) have a: "peek g q = peek f q \<or> (peek f q = Inl ENOENT \<and> ?N g)"
    by (simp add: linked_def)
  from assms(2) have b: "peek h q = peek g q \<or> (peek g q = Inl ENOENT \<and> ?N h)"
    by (simp add: linked_def)
  show "peek h q = peek f q \<or> (peek f q = Inl ENOENT \<and> ?N h)"
  proof (cases "peek h q = peek g q")
    case True
    with a show ?thesis by auto
  next
    case False
    with b have g: "peek g q = Inl ENOENT" and n: "?N h" by blast+
    from a g have "peek f q = Inl ENOENT" by auto
    with n show ?thesis by blast
  qed
qed

lemma linked_persists:
  "linked pkgPath f g \<Longrightarrow> peek f q \<noteq> Inl ENOENT \<Longrightarrow> peek g q = peek f q"
  by (auto simp: linked_def)

lemma linked_ext: "linked pkgPath f g \<Longrightarrow> ext f g"
  unfolding linked_def ext_def by metis

lemma MkdirAll_linked:
  assumes "MkdirAll um fs p perm = (r, fs')"
  shows "linked pkgPath fs fs'"
  unfolding linked_def using MkdirAll_grows [OF assms] by blast

lemma Symlink_Inr:
  assumes "Symlink fs old new = Inr fs'"
  obtains q where "locate False fs new = Inr q" "create fs q (Link old) = Inr fs'"
  using assms by (auto simp: Symlink_def split: sum.splits)

lemma Symlink_linked:
  assumes "Symlink fs (Join pkgPath rel) t = Inr fs'" "rel \<noteq> []"
  shows "linked pkgPath fs fs'"
  unfolding linked_def
proof
  fix q
  from assms(1) obtain p where cr: "create fs p (Link (Join pkgPath rel)) = Inr fs'"
    by (rule Symlink_Inr)
  note sp = create_spec [OF cr]
  show "peek fs' q = peek fs q \<or>
        (peek fs q = Inl ENOENT \<and>
         (peek fs' q = Inl ENOTDIR \<or> (\<exists>m. peek fs' q = Inr (Dir m [])) \<or>
          (\<exists>rel. rel \<noteq> [] \<and> peek fs' q = Inr (Link (Join pkgPath rel)))))"
  proof (cases "prefix p q")
    case False
    with sp(3) [of q] show ?thesis by simp
  next
    case True
    from sp(2) True have e: "peek fs q = Inl ENOENT" by (rule peek_below_ENOENT)
    show ?thesis
    proof (cases "q = p")
      case True
      with sp(3) [of q] have "peek fs' q = Inr (Link (Join pkgPath rel))" by simp
      with e True assms(2) show ?thesis by blast
    next
      case False
      with True obtain x xs where "q = p @ x # xs"
        by (auto simp: prefix_def) (metis list.exhaust append_Nil2)
      with sp(3) [of q] have "peek fs' q = Inl ENOTDIR" by simp
      with e show ?thesis by simp
    qed
  qed
qed

text \<open>How \<open>createSymlink\<close> can change the file system: first the parent, then the link.\<close>

lemma createSymlink_steps:
  assumes "createSymlink um config src t fs = (r, fs')"
  shows "\<exists>fs1. (fs1 = fs \<or> (\<exists>r1. MkdirAll um fs (filepath_Dir t) 493 = (r1, fs1) \<and> \<not> Simulate config)) \<and>
               (fs' = fs1 \<or> (Symlink fs1 src t = Inr fs' \<and> r = None \<and> \<not> Simulate config))"
proof (cases "Lstat fs t")
  case (Inr info)
  with assms have "fs' = fs"
    by (auto simp: createSymlink_def split: sum.splits if_splits)
  then show ?thesis by blast
next
  case (Inl e0)
  define par where "par = (case Stat fs (filepath_Dir t) of
      Inl e \<Rightarrow> (if IsNotExist e \<and> \<not> Simulate config then MkdirAll um fs (filepath_Dir t) 493
                else (None, fs))
    | Inr i \<Rightarrow> (None, fs))"
  obtain r1 fs1 where par: "par = (r1, fs1)" by (cases par)
  have p1: "fs1 = fs \<or> (MkdirAll um fs (filepath_Dir t) 493 = (r1, fs1) \<and> \<not> Simulate config)"
    using par unfolding par_def by (auto split: sum.splits if_splits)
  from assms Inl par have res: "(r, fs') =
      (case r1 of
         Some e \<Rightarrow> (Some (CreateParentFailed (filepath_Dir t) e), fs1)
       | None \<Rightarrow>
           (if \<not> Simulate config then
              (case Symlink fs1 src t of
                 Inl e \<Rightarrow> (Some (CreateSymlinkFailed t src e), fs1)
               | Inr fs2 \<Rightarrow> (None, fs2))
            else (None, fs1)))"
    by (simp add: createSymlink_def Let_def par_def)
  have p2: "fs' = fs1 \<or> (Symlink fs1 src t = Inr fs' \<and> r = None \<and> \<not> Simulate config)"
    using res by (auto split: option.splits if_splits sum.splits)
  from p1 p2 show ?thesis by blast
qed

lemma createSymlink_linked:
  assumes "createSymlink um config (Join pkgPath rel) (Join (TargetDir config) rel) fs = (r, fs')"
    and "rel \<noteq> []"
  shows "linked pkgPath fs fs'"
proof -
  from createSymlink_steps [OF assms(1)] obtain fs1
    where a: "fs1 = fs \<or> (\<exists>r1. MkdirAll um fs (filepath_Dir (Join (TargetDir config) rel)) 493 = (r1, fs1))"
      and b: "fs' = fs1 \<or> Symlink fs1 (Join pkgPath rel) (Join (TargetDir config) rel) = Inr fs'"
    by blast
  from a have l1: "linked pkgPath fs fs1"
    using linked_refl MkdirAll_linked by blast
  from b have l2: "linked pkgPath fs1 fs'"
    using linked_refl Symlink_linked [OF _ assms(2)] by blast
  from l1 l2 show ?thesis by (rule linked_trans)
qed

lemma createSymlink_made:
  assumes "createSymlink um config src t fs = (None, fs')" "\<not> Simulate config"
  shows "seen False fs' t = Inr (Link src)"
proof (cases "Lstat fs t")
  case (Inr info)
  with assms(1) have "Readlink fs t = Inr src" "fs' = fs"
    by (auto simp: createSymlink_def split: sum.splits if_splits)
  then show ?thesis
    by (auto simp: Readlink_seen split: sum.splits node.splits)
next
  case (Inl e0)
  with assms obtain fs1 where "Symlink fs1 src t = Inr fs'"
    by (auto simp: createSymlink_def Let_def split: sum.splits if_splits option.splits prod.splits)
  then obtain q where "locate False fs1 t = Inr q" "create fs1 q (Link src) = Inr fs'"
    by (rule Symlink_Inr)
  from create_seen(2) [OF this] show ?thesis by simp
qed



lemma symPackage_fn_linked:
  assumes "symPackage_fn um config pkgPath path info err fs = (r, fs')"
  shows "linked pkgPath fs fs'"
proof (cases "fs' = fs")
  case True
  then show ?thesis by (simp add: linked_refl)
next
  case False
  with assms obtain rel i where rel: "Rel pkgPath path = Inr rel" "path \<noteq> pkgPath"
    and i: "info = Some i" and e: "err = None"
    by (auto simp: symPackage_fn_def Let_def split: option.splits if_splits sum.splits)
  from Rel_Inr [OF rel(1)] rel(2) have p: "path = Join pkgPath rel" "rel \<noteq> []"
    by (auto simp: Join_def)
  show ?thesis
  proof (cases "IsDir i")
    case True
    with assms rel i e False obtain r1
      where "MkdirAll um fs (Join (TargetDir config) rel) (Mode i) = (r1, fs')"
      by (auto simp: symPackage_fn_def Let_def split: sum.splits if_splits option.splits prod.splits)
    then show ?thesis by (rule MkdirAll_linked)
  next
    case False
    with assms rel i e p
    have "createSymlink um config (Join pkgPath rel) (Join (TargetDir config) rel) fs = (r, fs')"
      by (simp add: symPackage_fn_def Let_def)
    then show ?thesis using p(2) by (rule createSymlink_linked)
  qed
qed

lemma symPackage_linked:
  assumes "symPackage um n config pkg pkgPath fs = (out, fs')"
  shows "linked pkgPath fs fs'"
proof (rule Walk_rel [of "linked pkgPath" "symPackage_fn um config pkgPath" n pkgPath fs out fs'])
  show "linked pkgPath f f" for f by (rule linked_refl)
  show "linked pkgPath f h"
    if "linked pkgPath f g" "linked pkgPath g h" for f g h
    using that by (rule linked_trans)
  show "linked pkgPath f f'"
    if "symPackage_fn um config pkgPath path info err f = (r, f')" for path info err f r f'
    using that by (rule symPackage_fn_linked)
  show "Walk n (symPackage_fn um config pkgPath) pkgPath fs = (out, fs')"
    using assms by (simp add: symPackage_def)
qed

section \<open>Facts about removing a link\<close>

lemma del_shr:
  assumes "descend fs q = Inr nd" "q \<noteq> []"
  shows "shr fs (del q fs)"
  unfolding shr_def using peek_del [OF assms(2) assms(1)] by simp

lemma removeSymlink_own_link:
  assumes "seen False fs t = Inr (Link src)"
  shows "fst (removeSymlink config src t fs) =
     (if Simulate config then None
      else if t = [] then Some (RemoveSymlinkFailed t EBUSY) else None)"
proof -
  from assms obtain q where l: "locate False fs t = Inr q" and p: "peek fs q = Inr (Link src)"
    by (auto simp: seen_locate split: sum.splits)
  from p have d: "descend fs q = Inr (Link src)" by (simp add: peek_Link_iff)
  have q: "q = [] \<longleftrightarrow> t = []"
  proof
    assume "t = []"
    with l show "q = []" by (simp add: locate_def)
  next
    assume "q = []"
    with l namei_nonempty [of 40 fs "[]" t q] show "t = []" by (auto simp: locate_def)
  qed
  from l d q show ?thesis
    by (auto simp: removeSymlink_def Lstat_def Readlink_def Remove_def lookup_def)
qed


section \<open>The link callback on one entry\<close>

lemma Rel_Join [simp]: "Rel pkgPath (Join pkgPath rel) = Inr rel"
  by (simp add: Rel_def Join_def)

lemma Join_eq_self [simp]: "Join pkgPath rel = pkgPath \<longleftrightarrow> rel = []"
  by (simp add: Join_def)

lemma symPackage_fn_entry:
  "rel \<noteq> [] \<Longrightarrow>
   symPackage_fn um config pkgPath (Join pkgPath rel) (Some i) None fs =
     (if IsDir i then
        (case Stat fs (Join (TargetDir config) rel) of
           Inr i1 \<Rightarrow> (None, fs)
         | Inl e \<Rightarrow>
             (if IsNotExist e \<and> \<not> Simulate config then
                (case MkdirAll um fs (Join (TargetDir config) rel) (Mode i) of
                   (Some e1, fs1) \<Rightarrow> (Some (CreateDirFailed (Join (TargetDir config) rel) e1), fs1)
                 | (None, fs1) \<Rightarrow> (None, fs1))
              else (None, fs)))
      else createSymlink um config (Join pkgPath rel) (Join (TargetDir config) rel) fs)"
  by (simp add: symPackage_fn_def Let_def)

lemma symPackage_fn_dir_kept:
  assumes "rel \<noteq> []" "IsDir i" "Stat fs (Join (TargetDir config) rel) \<noteq> Inl ENOENT \<or> Simulate config"
  shows "symPackage_fn um config pkgPath (Join pkgPath rel) (Some i) None fs = (None, fs)"
  using assms by (auto simp: symPackage_fn_entry IsNotExist_def split: sum.splits)

lemma symPackage_fn_dir_made:
  assumes "rel \<noteq> []" "IsDir i" "Stat fs (Join (TargetDir config) rel) = Inl ENOENT"
    "\<not> Simulate config"
    "symPackage_fn um config pkgPath (Join pkgPath rel) (Some i) None fs = (r, fs')"
  shows "(r = None \<longrightarrow>
            Lstat fs' (Join (TargetDir config) rel)
              = Inr (FileInfo True False (apply_umask um (Mode i)))) \<and>
         (\<forall>e. r = Some e \<longrightarrow> (\<exists>e1. e = CreateDirFailed (Join (TargetDir config) rel) e1)) \<and>
         (\<forall>q. peek fs' q = peek fs q \<or>
              (peek fs q = Inl ENOENT \<and> peek fs' q = Inr (Dir (apply_umask um (Mode i)) [])))"
proof -
  let ?t = "Join (TargetDir config) rel"
  obtain r1 fs1 where m: "MkdirAll um fs ?t (Mode i) = (r1, fs1)"
    by (cases "MkdirAll um fs ?t (Mode i)")
  have f: "fs' = fs1" using assms m
    by (cases r1) (simp_all add: symPackage_fn_entry IsNotExist_def)
  have g: "\<forall>q. peek fs' q = peek fs q \<or>
      (peek fs q = Inl ENOENT \<and> peek fs' q = Inr (Dir (apply_umask um (Mode i)) []))"
    using MkdirAll_grows [OF m] f by blast
  show ?thesis
  proof (cases r1)
    case None
    with assms m have "r = None"
      by (simp_all add: symPackage_fn_entry IsNotExist_def)
    with MkdirAll_made_mode(1) [OF m [unfolded None] assms(3)] f g show ?thesis by simp
  next
    case (Some e1)
    with assms m have "r = Some (CreateDirFailed ?t e1)"
      by (simp add: symPackage_fn_entry IsNotExist_def)
    with g show ?thesis by simp
  qed
qed

lemma symPackage_fn_dir_no_conflict:
  assumes "rel \<noteq> []" "IsDir i"
  shows "fst (symPackage_fn um config pkgPath (Join pkgPath rel) (Some i) None fs)
           \<noteq> Some (TargetPointsElsewhere a b c) \<and>
         fst (symPackage_fn um config pkgPath (Join pkgPath rel) (Some i) None fs)
           \<noteq> Some (TargetNotSymlink a)"
  using assms
  by (auto simp: symPackage_fn_entry split: sum.splits prod.splits option.splits)

section \<open>Conflicts when linking one entry\<close>

text \<open>
  C1. When the target of a single link exists, looked up without following a last
  link, and is a symbolic link whose stored destination differs from the source path,
  linking fails with the conflict error that names the target, the actual destination
  and the expected one; when the target exists and is not a symbolic link, linking fails
  with the conflict error for a non-link. In both cases the file system comes back
  unchanged.
\<close>

theorem createSymlink_conflict:
  "(lookup False fs targetPath = Inr (Link d) \<and> d \<noteq> srcPath \<longrightarrow>
      createSymlink um config srcPath targetPath fs =
        (Some (TargetPointsElsewhere targetPath d srcPath), fs)) \<and>
   (lookup False fs targetPath = Inr nd \<and> (\<forall>d'. nd \<noteq> Link d') \<longrightarrow>
      createSymlink um config srcPath targetPath fs = (Some (TargetNotSymlink targetPath), fs))"
  by (cases nd) (auto simp: createSymlink_def Lstat_def Readlink_def)

theorem createSymlink_conflict_witness:
  "lookup False (mkfs [(''.vimrc'', Link [''other'', ''.vimrc''])]) [''home'', ''u'', ''.vimrc'']
     = Inr (Link [''other'', ''.vimrc'']) \<and>
   [''other'', ''.vimrc''] \<noteq> [''src'', ''vim'', ''.vimrc''] \<and>
   createSymlink 18 (cfg False False False) [''src'', ''vim'', ''.vimrc''] [''home'', ''u'', ''.vimrc'']
       (mkfs [(''.vimrc'', Link [''other'', ''.vimrc''])])
     = (Some (TargetPointsElsewhere [''home'', ''u'', ''.vimrc''] [''other'', ''.vimrc'']
               [''src'', ''vim'', ''.vimrc'']),
        mkfs [(''.vimrc'', Link [''other'', ''.vimrc''])]) \<and>
   lookup False (mkfs [(''.vimrc'', File 420 ''mine'')]) [''home'', ''u'', ''.vimrc'']
     = Inr (File 420 ''mine'') \<and>
   (\<forall>d'. File 420 ''mine'' \<noteq> Link d') \<and>
   createSymlink 18 (cfg False False False) [''src'', ''vim'', ''.vimrc''] [''home'', ''u'', ''.vimrc'']
       (mkfs [(''.vimrc'', File 420 ''mine'')])
     = (Some (TargetNotSymlink [''home'', ''u'', ''.vimrc'']), mkfs [(''.vimrc'', File 420 ''mine'')])"
proof -
  let ?f1 = "mkfs [(''.vimrc'', Link [''other'', ''.vimrc''])]"
  let ?f2 = "mkfs [(''.vimrc'', File 420 ''mine'')]"
  let ?t = "[''home'', ''u'', ''.vimrc'']"
  have h1: "lookup False ?f1 ?t = Inr (Link [''other'', ''.vimrc''])" by code_simp
  have h2: "[''other'', ''.vimrc''] \<noteq> [''src'', ''vim'', ''.vimrc'']" by simp
  have h3: "lookup False ?f2 ?t = Inr (File 420 ''mine'')" by code_simp
  have h4: "\<forall>d'. File 420 ''mine'' \<noteq> Link d'" by simp
  from createSymlink_conflict [of ?f1 ?t "[''other'', ''.vimrc'']" "[''src'', ''vim'', ''.vimrc'']"
      18 "cfg False False False" "Link [''other'', ''.vimrc'']"] h1 h2
  have c1: "createSymlink 18 (cfg False False False) [''src'', ''vim'', ''.vimrc''] ?t ?f1
     = (Some (TargetPointsElsewhere ?t [''other'', ''.vimrc''] [''src'', ''vim'', ''.vimrc'']), ?f1)"
    by blast
  from createSymlink_conflict [of ?f2 ?t "[]" "[''src'', ''vim'', ''.vimrc'']"
      18 "cfg False False False" "File 420 ''mine''"] h3 h4
  have c2: "createSymlink 18 (cfg False False False) [''src'', ''vim'', ''.vimrc''] ?t ?f2
     = (Some (TargetNotSymlink ?t), ?f2)"
    by blast
  from h1 h2 c1 h3 h4 c2 show ?thesis by (simp only: simp_thms)
qed

section \<open>Dangling links\<close>

text \<open>
  C10. Linking and unlinking one entry look only at what the target path itself names:
  when it is a symbolic link whose stored destination equals the source path, linking
  is a successful no-op and unlinking removes the link (when not simulating), after
  which the target path names nothing, whether or not the destination exists; and on
  two file systems in which the target path names the same entry both operations
  return the same error or success.
\<close>

theorem link_decisions_ignore_destination:
  "(lookup False fs targetPath = Inr (Link srcPath) \<and> locate False fs targetPath = Inr q \<and>
    targetPath \<noteq> [] \<longrightarrow>
      createSymlink um config srcPath targetPath fs = (None, fs) \<and>
      removeSymlink config srcPath targetPath fs =
        (None, if Simulate config then fs else del q fs) \<and>
      peek (del q fs) q = Inl ENOENT \<and> Lstat (del q fs) targetPath = Inl ENOENT) \<and>
   (seen False fs targetPath = Inr nd \<and> seen False fs2 targetPath = Inr nd \<longrightarrow>
      fst (createSymlink um config srcPath targetPath fs) =
        fst (createSymlink um config srcPath targetPath fs2) \<and>
      fst (removeSymlink config srcPath targetPath fs) =
        fst (removeSymlink config srcPath targetPath fs2))"
proof -
  have a: "createSymlink um config srcPath targetPath fs = (None, fs)"
    if "lookup False fs targetPath = Inr (Link srcPath)"
    using that by (simp add: createSymlink_def Lstat_def Readlink_def)
  have b: "removeSymlink config srcPath targetPath fs =
      (None, if Simulate config then fs else del q fs)"
    if "lookup False fs targetPath = Inr (Link srcPath)" "locate False fs targetPath = Inr q"
      "targetPath \<noteq> []"
  proof -
    from that(2,3) namei_nonempty [of 40 fs "[]" targetPath q] have "q \<noteq> []"
      by (simp add: locate_def)
    with that show ?thesis
      by (simp add: removeSymlink_def Lstat_def Readlink_def Remove_def lookup_def)
  qed
  have c: "peek (del q fs) q = Inl ENOENT \<and> Lstat (del q fs) targetPath = Inl ENOENT"
    if "lookup False fs targetPath = Inr (Link srcPath)" "locate False fs targetPath = Inr q"
      "targetPath \<noteq> []"
  proof -
    from that(2,3) namei_nonempty [of 40 fs "[]" targetPath q] have q: "q \<noteq> []"
      by (simp add: locate_def)
    from that(1,2) have d: "descend fs q = Inr (Link srcPath)" by (simp add: lookup_def)
    from peek_del [OF q d, of q] have p: "peek (del q fs) q = Inl ENOENT" by simp
    from seen_shr [OF del_shr [OF d q], of False targetPath] that(2) p
    have "seen False (del q fs) targetPath = Inl ENOENT"
      by (auto simp: seen_locate)
    with p show ?thesis by (simp add: Lstat_seen)
  qed
  have d: "fst (createSymlink um config srcPath targetPath fs) =
      fst (createSymlink um config srcPath targetPath fs2)"
    if "seen False fs targetPath = Inr nd" "seen False fs2 targetPath = Inr nd"
    using that
    by (cases nd) (auto simp: createSymlink_def Lstat_seen Readlink_seen)
  have e: "fst (removeSymlink config srcPath targetPath fs) =
      fst (removeSymlink config srcPath targetPath fs2)"
    if "seen False fs targetPath = Inr nd" "seen False fs2 targetPath = Inr nd"
  proof (cases nd)
    case (Link d')
    show ?thesis
    proof (cases "d' = srcPath")
      case True
      with Link that removeSymlink_own_link [of fs targetPath srcPath config]
        removeSymlink_own_link [of fs2 targetPath srcPath config]
      show ?thesis by simp
    next
      case False
      with Link that show ?thesis
        by (auto simp: removeSymlink_def Lstat_seen Readlink_seen)
    qed
  qed (use that in \<open>auto simp: removeSymlink_def Lstat_seen\<close>)
  from a b c d e show ?thesis by blast
qed

theorem link_decisions_ignore_destination_witness:
  "lookup True (mkfs [(''.vimrc'', Link [''src'', ''vim'', ''gone''])]) [''src'', ''vim'', ''gone'']
     = Inl ENOENT \<and>
   lookup False (mkfs [(''.vimrc'', Link [''src'', ''vim'', ''gone''])]) [''home'', ''u'', ''.vimrc'']
     = Inr (Link [''src'', ''vim'', ''gone'']) \<and>
   locate False (mkfs [(''.vimrc'', Link [''src'', ''vim'', ''gone''])]) [''home'', ''u'', ''.vimrc'']
     = Inr [''home'', ''u'', ''.vimrc''] \<and>
   [''home'', ''u'', ''.vimrc''] \<noteq> [] \<and>
   createSymlink 18 (cfg False False False) [''src'', ''vim'', ''gone''] [''home'', ''u'', ''.vimrc'']
       (mkfs [(''.vimrc'', Link [''src'', ''vim'', ''gone''])])
     = (None, mkfs [(''.vimrc'', Link [''src'', ''vim'', ''gone''])]) \<and>
   removeSymlink (cfg False False False) [''src'', ''vim'', ''gone''] [''home'', ''u'', ''.vimrc'']
       (mkfs [(''.vimrc'', Link [''src'', ''vim'', ''gone''])])
     = (None, mkfs [])"
proof -
  let ?fs = "mkfs [(''.vimrc'', Link [''src'', ''vim'', ''gone''])]"
  let ?t = "[''home'', ''u'', ''.vimrc'']"
  have h0: "lookup True ?fs [''src'', ''vim'', ''gone''] = Inl ENOENT" by code_simp
  have h1: "lookup False ?fs ?t = Inr (Link [''src'', ''vim'', ''gone''])" by code_simp
  have h2: "locate False ?fs ?t = Inr ?t" by code_simp
  have h3: "?t \<noteq> []" by simp
  have d: "del ?t ?fs = mkfs []" by code_simp
  have s: "\<not> Simulate (cfg False False False)" by code_simp
  from link_decisions_ignore_destination [of ?fs ?t "[''src'', ''vim'', ''gone'']" ?t
      18 "cfg False False False"] h1 h2 h3
  have c: "createSymlink 18 (cfg False False False) [''src'', ''vim'', ''gone''] ?t ?fs = (None, ?fs)"
    and r: "removeSymlink (cfg False False False) [''src'', ''vim'', ''gone''] ?t ?fs =
      (None, if Simulate (cfg False False False) then ?fs else del ?t ?fs)"
    by blast+
  from r d s have r': "removeSymlink (cfg False False False) [''src'', ''vim'', ''gone''] ?t ?fs
      = (None, mkfs [])"
    by (simp only: if_False)
  from h0 h1 h2 h3 c r' show ?thesis by (simp only: simp_thms)
qed

section \<open>Resolving the package\<close>

text \<open>
  C8, as the code has it. The specification asks for the not-found error also when the package
  path is not a directory. The code only asks \<open>IsNotExist\<close>: a regular file at the
  package path passes the check, and the walk over a non-directory visits the root alone
  and succeeds.
\<close>

theorem package_not_directory_counterexample:
  "Stat file_pkg_fs (Join (SymDir (cfg False False False)) [''vim''])
     = Inr (FileInfo False False 420) \<and>
   ProcessPackage 18 5 (cfg False False False) [''vim''] file_pkg_fs = (Returned None, file_pkg_fs)"
  by code_simp

text \<open>
  C8 amended. Processing resolves the package root as the join of the source root and
  the package name, and returns the not-found error naming that path, before any walk and
  with the file system unchanged, exactly when \<open>Stat\<close> answers that the path does not
  exist (\<open>ENOENT\<close>). Any other answer of \<open>Stat\<close> lets processing go on to the walk: a
  path that exists and is not a directory, and also another error, such as \<open>ENOTDIR\<close>
  for a package path below a regular file, which the walk then returns as it is.
\<close>

theorem ProcessPackage_not_found:
  "(Stat fs (Join (SymDir config) pkg) = Inl ENOENT \<longrightarrow>
      ProcessPackage um n config pkg fs =
        (Returned (Some (PackageDirNotExist (Join (SymDir config) pkg))), fs)) \<and>
   (fst (ProcessPackage um n config pkg fs) = Returned (Some (PackageDirNotExist p)) \<longrightarrow>
      p = Join (SymDir config) pkg \<and> Stat fs (Join (SymDir config) pkg) = Inl ENOENT)"
proof -
  let ?pkgPath = "Join (SymDir config) pkg"
  have a: "ProcessPackage um n config pkg fs = (Returned (Some (PackageDirNotExist ?pkgPath)), fs)"
    if "Stat fs ?pkgPath = Inl ENOENT"
    using that by (simp add: ProcessPackage_def Let_def IsNotExist_def)
  have b: "p = ?pkgPath \<and> Stat fs ?pkgPath = Inl ENOENT"
    if r: "fst (ProcessPackage um n config pkg fs) = Returned (Some (PackageDirNotExist p))"
  proof (cases "Stat fs ?pkgPath = Inl ENOENT")
    case True
    with r a show ?thesis by simp
  next
    case False
    then have g: "\<not> (case Stat fs ?pkgPath of Inl e \<Rightarrow> IsNotExist e | Inr i \<Rightarrow> False)"
      by (auto simp: IsNotExist_def split: sum.splits)
    from r obtain fs' where pp:
      "ProcessPackage um n config pkg fs = (Returned (Some (PackageDirNotExist p)), fs')"
      by (metis prod.collapse)
    have s: "symPackage um n config pkg ?pkgPath fs0 \<noteq> (Returned (Some (PackageDirNotExist p)), fs1)"
      for fs0 fs1 using symPackage_error [of um n config pkg ?pkgPath fs0 "PackageDirNotExist p" fs1]
      by auto
    have u: "unsymPackage n config pkg ?pkgPath fs0 \<noteq> (Returned (Some (PackageDirNotExist p)), fs1)"
      for fs0 fs1 using unsymPackage_error [of n config pkg ?pkgPath fs0 "PackageDirNotExist p" fs1]
      by auto
    have False
    proof (cases "ReSym config")
      case True
      obtain out f1 where un: "unsymPackage n config pkg ?pkgPath fs = (out, f1)"
        by (cases "unsymPackage n config pkg ?pkgPath fs")
      show False
      proof (cases out)
        case OutOfFuel
        with pp g True un show False by (simp add: ProcessPackage_def Let_def)
      next
        case (Returned err)
        show False
        proof (cases err)
          case None
          with pp g True un Returned s [of f1 fs'] show False
            by (simp add: ProcessPackage_def Let_def)
        next
          case (Some e)
          with pp g True un Returned show False by (simp add: ProcessPackage_def Let_def)
        qed
      qed
    next
      case False
      with pp g s [of fs fs'] u [of fs fs'] show False
        by (cases "Delete config") (simp_all add: ProcessPackage_def Let_def)
    qed
    then show ?thesis ..
  qed
  from a b show ?thesis by blast
qed

text \<open>A package path below a regular file: \<open>Stat\<close> answers \<open>ENOTDIR\<close>, and that is the
  error of processing.\<close>

lemma package_below_file_example:
  "Stat file_pkg_fs (Join (SymDir (cfg False False False)) [''vim'', ''sub'']) = Inl ENOTDIR \<and>
   ProcessPackage 18 5 (cfg False False False) [''vim'', ''sub''] file_pkg_fs
     = (Returned (Some (OsError ENOTDIR)), file_pkg_fs)"
  by code_simp

theorem ProcessPackage_not_found_witness:
  "Stat (mkfs []) (Join (SymDir (cfg False False False)) [''emacs'']) = Inl ENOENT \<and>
   ProcessPackage 18 5 (cfg False False False) [''emacs''] (mkfs [])
     = (Returned (Some (PackageDirNotExist [''src'', ''emacs''])), mkfs [])"
proof -
  have j: "Join (SymDir (cfg False False False)) [''emacs''] = [''src'', ''emacs'']"
    by (simp add: Join_def cfg_def)
  have h: "Stat (mkfs []) (Join (SymDir (cfg False False False)) [''emacs'']) = Inl ENOENT"
    by code_simp
  have t: "ProcessPackage 18 5 (cfg False False False) [''emacs''] (mkfs [])
      = (Returned (Some (PackageDirNotExist (Join (SymDir (cfg False False False)) [''emacs'']))),
         mkfs [])"
    using ProcessPackage_not_found [of "mkfs []" "cfg False False False" "[''emacs'']" 18 5] h
    by blast
  from h t show ?thesis by (simp only: j simp_thms)
qed

section \<open>Dispatch by mode\<close>

text \<open>
  C6. Once the package path is found, processing dispatches by mode. In relink mode it
  runs the unlink walk and then the link walk on the file system the unlink walk left; an
  error of the unlink walk ends processing there, wrapped in the error of the relink
  composition, and no error of the link walk has that form, so the caller can tell the
  two phases apart. In delete mode it is the unlink walk alone, otherwise the link walk
  alone.
\<close>

theorem ProcessPackage_dispatch:
  assumes "Stat fs (Join (SymDir config) pkg) \<noteq> Inl ENOENT"
  shows
   "(ReSym config \<longrightarrow>
       (\<forall>e fs1. unsymPackage n config pkg (Join (SymDir config) pkg) fs = (Returned (Some e), fs1) \<longrightarrow>
          ProcessPackage um n config pkg fs = (Returned (Some (ResymUnsymFailed e)), fs1)) \<and>
       (\<forall>fs1. unsymPackage n config pkg (Join (SymDir config) pkg) fs = (Returned None, fs1) \<longrightarrow>
          ProcessPackage um n config pkg fs = symPackage um n config pkg (Join (SymDir config) pkg) fs1) \<and>
       (\<forall>fs1. unsymPackage n config pkg (Join (SymDir config) pkg) fs = (OutOfFuel, fs1) \<longrightarrow>
          ProcessPackage um n config pkg fs = (OutOfFuel, fs1)) \<and>
       (\<forall>e. fst (ProcessPackage um n config pkg fs) = Returned (Some (ResymUnsymFailed e)) \<longleftrightarrow>
          fst (unsymPackage n config pkg (Join (SymDir config) pkg) fs) = Returned (Some e))) \<and>
    (\<not> ReSym config \<and> Delete config \<longrightarrow>
       ProcessPackage um n config pkg fs = unsymPackage n config pkg (Join (SymDir config) pkg) fs) \<and>
    (\<not> ReSym config \<and> \<not> Delete config \<longrightarrow>
       ProcessPackage um n config pkg fs = symPackage um n config pkg (Join (SymDir config) pkg) fs) \<and>
    (\<not> ReSym config \<longrightarrow>
       (\<forall>e. fst (ProcessPackage um n config pkg fs) \<noteq> Returned (Some (ResymUnsymFailed e))))"
proof -
  let ?pkgPath = "Join (SymDir config) pkg"
  from assms have g: "\<not> (case Stat fs ?pkgPath of Inl e \<Rightarrow> IsNotExist e | Inr i \<Rightarrow> False)"
    by (auto simp: IsNotExist_def split: sum.splits)
  have s: "symPackage um n config pkg ?pkgPath fs0 \<noteq> (Returned (Some (ResymUnsymFailed e)), fs1)"
    for fs0 fs1 e
    using symPackage_error [of um n config pkg ?pkgPath fs0 "ResymUnsymFailed e" fs1] by auto
  have u: "unsymPackage n config pkg ?pkgPath fs0 \<noteq> (Returned (Some (ResymUnsymFailed e)), fs1)"
    for fs0 fs1 e
    using unsymPackage_error [of n config pkg ?pkgPath fs0 "ResymUnsymFailed e" fs1] by auto
  have s': "fst (symPackage um n config pkg ?pkgPath fs0) \<noteq> Returned (Some (ResymUnsymFailed e))"
    for fs0 e using s [of fs0 e] by (metis prod.collapse)
  have u': "fst (unsymPackage n config pkg ?pkgPath fs0) \<noteq> Returned (Some (ResymUnsymFailed e))"
    for fs0 e using u [of fs0 e] by (metis prod.collapse)
  have del: "ProcessPackage um n config pkg fs = unsymPackage n config pkg ?pkgPath fs"
    if "\<not> ReSym config" "Delete config"
    using that g by (simp add: ProcessPackage_def Let_def)
  have lnk: "ProcessPackage um n config pkg fs = symPackage um n config pkg ?pkgPath fs"
    if "\<not> ReSym config" "\<not> Delete config"
    using that g by (simp add: ProcessPackage_def Let_def)
  have r1: "ProcessPackage um n config pkg fs = (Returned (Some (ResymUnsymFailed e)), fs1)"
    if "ReSym config" "unsymPackage n config pkg ?pkgPath fs = (Returned (Some e), fs1)" for e fs1
    using that g by (simp add: ProcessPackage_def Let_def)
  have r2: "ProcessPackage um n config pkg fs = symPackage um n config pkg ?pkgPath fs1"
    if "ReSym config" "unsymPackage n config pkg ?pkgPath fs = (Returned None, fs1)" for fs1
    using that g by (simp add: ProcessPackage_def Let_def)
  have r3: "ProcessPackage um n config pkg fs = (OutOfFuel, fs1)"
    if "ReSym config" "unsymPackage n config pkg ?pkgPath fs = (OutOfFuel, fs1)" for fs1
    using that g by (simp add: ProcessPackage_def Let_def)
  have r4: "fst (ProcessPackage um n config pkg fs) = Returned (Some (ResymUnsymFailed e)) \<longleftrightarrow>
      fst (unsymPackage n config pkg ?pkgPath fs) = Returned (Some e)"
    if re: "ReSym config" for e
  proof -
    obtain out f1 where un: "unsymPackage n config pkg ?pkgPath fs = (out, f1)"
      by (cases "unsymPackage n config pkg ?pkgPath fs")
    show ?thesis
    proof (cases out)
      case OutOfFuel
      with un r3 [OF re] show ?thesis by simp
    next
      case (Returned err)
      show ?thesis
      proof (cases err)
        case None
        with un Returned r2 [OF re] s' [of f1 e] show ?thesis by simp
      next
        case (Some e')
        with un Returned r1 [OF re] show ?thesis by simp
      qed
    qed
  qed
  have n4: "fst (ProcessPackage um n config pkg fs) \<noteq> Returned (Some (ResymUnsymFailed e))"
    if "\<not> ReSym config" for e
    using that del lnk s' [of fs e] u' [of fs e] by (cases "Delete config") simp_all
  from del lnk r1 r2 r3 r4 n4 show ?thesis by blast
qed

theorem ProcessPackage_dispatch_witness:
  "Stat colors_file_fs (Join (SymDir (cfg False False True)) [''vim'']) \<noteq> Inl ENOENT \<and>
   ReSym (cfg False False True) \<and>
   unsymPackage 5 (cfg False False True) [''vim''] (Join (SymDir (cfg False False True)) [''vim''])
       colors_file_fs
     = (Returned (Some (OsError ENOTDIR)), colors_file_fs) \<and>
   ProcessPackage 18 5 (cfg False False True) [''vim''] colors_file_fs
     = (Returned (Some (ResymUnsymFailed (OsError ENOTDIR))), colors_file_fs)"
proof -
  have h1: "Stat colors_file_fs (Join (SymDir (cfg False False True)) [''vim'']) \<noteq> Inl ENOENT"
    by code_simp
  have h2: "ReSym (cfg False False True)"
    by code_simp
  have h3: "unsymPackage 5 (cfg False False True) [''vim'']
      (Join (SymDir (cfg False False True)) [''vim'']) colors_file_fs
      = (Returned (Some (OsError ENOTDIR)), colors_file_fs)"
    by code_simp
  from ProcessPackage_dispatch [OF h1, where n = 5 and um = 18] h2 h3
  have "ProcessPackage 18 5 (cfg False False True) [''vim''] colors_file_fs
     = (Returned (Some (ResymUnsymFailed (OsError ENOTDIR))), colors_file_fs)"
    by blast
  with h1 h2 h3 show ?thesis by blast
qed

section \<open>Safety of unlinking\<close>

text \<open>
  C2, as the code has it. The claim calls every missing target a success. The code
  asks \<open>Lstat\<close> and takes only the answer that the target does not exist for a missing
  target; a target that cannot be looked up for another reason is an error of the
  entry. In the package of the example \<^verbatim>\<open>colors/foo.vim\<close> has no target when
  \<^verbatim>\<open>/home/u/colors\<close> is a regular file: \<open>Lstat\<close> answers \<open>ENOTDIR\<close>, unlinking the entry
  returns that error, and the unlink walk stops with it.
\<close>

theorem unlink_missing_target_counterexample:
  "seen False colors_file_fs [''home'', ''u'', ''colors'', ''foo.vim''] = Inl ENOTDIR \<and>
   removeSymlink (cfg False True False) [''src'', ''vim'', ''colors'', ''foo.vim'']
       [''home'', ''u'', ''colors'', ''foo.vim''] colors_file_fs
     = (Some (OsError ENOTDIR), colors_file_fs) \<and>
   unsymPackage 5 (cfg False True False) [''vim''] [''src'', ''vim''] colors_file_fs
     = (Returned (Some (OsError ENOTDIR)), colors_file_fs)"
  by code_simp

text \<open>
  C2 amended. Unlinking one entry leaves the file system as it is and returns no error
  when \<open>Lstat\<close> answers that the target does not exist, when the target is not a
  symbolic link, or when it is a link with another destination; when \<open>Lstat\<close> fails in
  another way it leaves the file system as it is and returns that error. It changes the
  file system only by removing the link that the target path names, and only when the
  stored destination of that link equals the source path. The callback of the unlink
  walk does nothing for a directory of the package, and any call of it either changes
  nothing or removes the link that the mirror of its path names and that points to its
  path. Over a whole unlink walk, whatever its outcome, every entry of the file system
  stays as it was, except links pointing to a path of the package below its root, which
  may disappear; in particular no directory is removed and nothing is created.
\<close>

theorem unlink_removes_only_own_links:
  "(Lstat fs targetPath = Inl ENOENT \<or>
      (\<exists>nd. lookup False fs targetPath = Inr nd \<and> nd \<noteq> Link srcPath) \<longrightarrow>
      removeSymlink config srcPath targetPath fs = (None, fs)) \<and>
   (Lstat fs targetPath = Inl e \<and> e \<noteq> ENOENT \<longrightarrow>
      removeSymlink config srcPath targetPath fs = (Some (OsError e), fs)) \<and>
   (snd (removeSymlink config srcPath targetPath fs) \<noteq> fs \<longrightarrow>
      lookup False fs targetPath = Inr (Link srcPath) \<and>
      (\<exists>q. locate False fs targetPath = Inr q \<and>
           snd (removeSymlink config srcPath targetPath fs) = del q fs)) \<and>
   (IsDir i \<and> prefix pkgPath path \<longrightarrow>
      unsymPackage_fn config pkgPath path (Some i) None fs = (None, fs)) \<and>
   (unsymPackage_fn config pkgPath path info err fs = (r, fs1) \<longrightarrow>
      fs1 = fs \<or>
      (\<exists>rel q. rel \<noteq> [] \<and> path = Join pkgPath rel \<and>
         locate False fs (Join (TargetDir config) rel) = Inr q \<and>
         lookup False fs (Join (TargetDir config) rel) = Inr (Link (Join pkgPath rel)) \<and>
         fs1 = del q fs)) \<and>
   (unsymPackage n config pkg pkgPath fs = (out, fs') \<longrightarrow>
      (\<forall>q nd. peek fs q = Inr nd \<longrightarrow>
         peek fs' q = Inr nd \<or>
         (\<exists>rel. rel \<noteq> [] \<and> nd = Link (Join pkgPath rel) \<and> peek fs' q = Inl ENOENT)) \<and>
      (\<forall>q m. peek fs q = Inr (Dir m []) \<longrightarrow> peek fs' q = Inr (Dir m [])) \<and>
      (\<forall>q. peek fs q = Inl ENOENT \<longrightarrow> peek fs' q = Inl ENOENT))"
proof -
  have a: "removeSymlink config srcPath targetPath fs = (None, fs)"
    if "Lstat fs targetPath = Inl ENOENT \<or>
        (\<exists>nd. lookup False fs targetPath = Inr nd \<and> nd \<noteq> Link srcPath)"
  proof -
    from that consider "Lstat fs targetPath = Inl ENOENT"
      | nd where "lookup False fs targetPath = Inr nd" "nd \<noteq> Link srcPath"
      by blast
    then show ?thesis
    proof cases
      case 1
      then show ?thesis by (simp add: removeSymlink_def IsNotExist_def)
    next
      case 2
      then show ?thesis
        by (cases nd) (auto simp: removeSymlink_def Lstat_def Readlink_def)
    qed
  qed
  have a': "removeSymlink config srcPath targetPath fs = (Some (OsError e), fs)"
    if "Lstat fs targetPath = Inl e" "e \<noteq> ENOENT"
    using that by (simp add: removeSymlink_def IsNotExist_def)
  have b: "lookup False fs targetPath = Inr (Link srcPath) \<and>
      (\<exists>q. locate False fs targetPath = Inr q \<and>
           snd (removeSymlink config srcPath targetPath fs) = del q fs)"
    if "snd (removeSymlink config srcPath targetPath fs) \<noteq> fs"
    using that removeSymlink_cases [of config srcPath targetPath fs
        "fst (removeSymlink config srcPath targetPath fs)"
        "snd (removeSymlink config srcPath targetPath fs)"]
    by (auto simp: lookup_def)
  have c: "unsymPackage_fn config pkgPath path (Some i) None fs = (None, fs)"
    if "IsDir i" "prefix pkgPath path"
    using that by (simp add: unsymPackage_fn_def Rel_def Let_def)
  have c': "fs1 = fs \<or>
      (\<exists>rel q. rel \<noteq> [] \<and> path = Join pkgPath rel \<and>
         locate False fs (Join (TargetDir config) rel) = Inr q \<and>
         lookup False fs (Join (TargetDir config) rel) = Inr (Link (Join pkgPath rel)) \<and>
         fs1 = del q fs)"
    if "unsymPackage_fn config pkgPath path info err fs = (r, fs1)"
    using unsymPackage_fn_cases [OF that] by (auto simp: lookup_def)
  have d: "(\<forall>q nd. peek fs q = Inr nd \<longrightarrow>
         peek fs' q = Inr nd \<or>
         (\<exists>rel. rel \<noteq> [] \<and> nd = Link (Join pkgPath rel) \<and> peek fs' q = Inl ENOENT)) \<and>
      (\<forall>q m. peek fs q = Inr (Dir m []) \<longrightarrow> peek fs' q = Inr (Dir m [])) \<and>
      (\<forall>q. peek fs q = Inl ENOENT \<longrightarrow> peek fs' q = Inl ENOENT)"
    if "unsymPackage n config pkg pkgPath fs = (out, fs')"
  proof -
    from unsymPackage_unlinked [OF that]
    have u: "peek fs' q = peek fs q \<or>
          (peek fs' q = Inl ENOENT \<and>
           (peek fs q = Inl ENOTDIR \<or>
            (\<exists>rel. rel \<noteq> [] \<and> peek fs q = Inr (Link (Join pkgPath rel)))))" for q
      by (simp add: unlinked_def)
    have d1: "peek fs' q = Inr nd \<or>
         (\<exists>rel. rel \<noteq> [] \<and> nd = Link (Join pkgPath rel) \<and> peek fs' q = Inl ENOENT)"
      if "peek fs q = Inr nd" for q nd
      using u [of q] that by auto
    have d2: "peek fs' q = Inr (Dir m [])" if "peek fs q = Inr (Dir m [])" for q m
      using u [of q] that by auto
    have d3: "peek fs' q = Inl ENOENT" if "peek fs q = Inl ENOENT" for q
      using u [of q] that by auto
    from d1 d2 d3 show ?thesis by blast
  qed
  from a a' b c c' d show ?thesis by blast
qed

theorem unlink_removes_only_own_links_witness:
  "lookup False mixed_fs [''home'', ''u'', ''.vimrc''] = Inr (Link [''other'', ''.vimrc'']) \<and>
   Link [''other'', ''.vimrc''] \<noteq> Link [''src'', ''vim'', ''.vimrc''] \<and>
   removeSymlink (cfg False True False) [''src'', ''vim'', ''.vimrc''] [''home'', ''u'', ''.vimrc'']
       mixed_fs = (None, mixed_fs) \<and>
   IsDir (FileInfo True False 488) \<and> prefix [''src'', ''vim''] [''src'', ''vim'', ''colors''] \<and>
   unsymPackage_fn (cfg False True False) [''src'', ''vim''] [''src'', ''vim'', ''colors'']
       (Some (FileInfo True False 488)) None mixed_fs = (None, mixed_fs) \<and>
   unsymPackage 5 (cfg False True False) [''vim''] [''src'', ''vim''] mixed_fs
     = (Returned None, mixed_fs_unlinked) \<and>
   peek mixed_fs [''home'', ''u'', ''colors''] = Inr (Dir 488 []) \<and>
   peek mixed_fs_unlinked [''home'', ''u'', ''colors''] = Inr (Dir 488 []) \<and>
   peek mixed_fs [''home'', ''u'', ''notes''] = Inr (File 420 ''keep'') \<and>
   peek mixed_fs_unlinked [''home'', ''u'', ''notes''] = Inr (File 420 ''keep'') \<and>
   unsymPackage 5 (cfg False True False) [''vim''] [''src'', ''vim'']
       (themes_fs [(''foo.vim'', Link [''src'', ''vim'', ''colors'', ''foo.vim''])])
     = (Returned None, themes_fs []) \<and>
   peek (themes_fs [(''foo.vim'', Link [''src'', ''vim'', ''colors'', ''foo.vim''])])
       [''home'', ''u'', ''colors''] = Inr (Link [''home'', ''u'', ''themes'']) \<and>
   peek (themes_fs []) [''home'', ''u'', ''colors''] = Inr (Link [''home'', ''u'', ''themes''])"
proof -
  let ?c = "cfg False True False"
  let ?th = "themes_fs [(''foo.vim'', Link [''src'', ''vim'', ''colors'', ''foo.vim''])]"
  have h1: "lookup False mixed_fs [''home'', ''u'', ''.vimrc''] = Inr (Link [''other'', ''.vimrc''])"
    by code_simp
  have h2: "Link [''other'', ''.vimrc''] \<noteq> Link [''src'', ''vim'', ''.vimrc'']"
    by simp
  have h3: "IsDir (FileInfo True False 488)"
    by simp
  have h4: "prefix [''src'', ''vim''] [''src'', ''vim'', ''colors'']"
    by simp
  have h5: "unsymPackage 5 ?c [''vim''] [''src'', ''vim''] mixed_fs = (Returned None, mixed_fs_unlinked)"
    by code_simp
  have h6: "peek mixed_fs [''home'', ''u'', ''colors''] = Inr (Dir 488 [])"
    by code_simp
  have h7: "peek mixed_fs [''home'', ''u'', ''notes''] = Inr (File 420 ''keep'')"
    by code_simp
  have h8: "unsymPackage 5 ?c [''vim''] [''src'', ''vim''] ?th = (Returned None, themes_fs [])"
    by code_simp
  have h9: "peek ?th [''home'', ''u'', ''colors''] = Inr (Link [''home'', ''u'', ''themes''])"
    by code_simp
  have h10: "\<not> (\<exists>rel. rel \<noteq> [] \<and> Link [''home'', ''u'', ''themes''] = Link (Join [''src'', ''vim''] rel))"
    by (simp add: Join_def)
  note t = unlink_removes_only_own_links [of mixed_fs "[''home'', ''u'', ''.vimrc'']"
      "[''src'', ''vim'', ''.vimrc'']" ?c _ "FileInfo True False 488" "[''src'', ''vim'']"
      "[''src'', ''vim'', ''colors'']" _ _ _ _ 5 "[''vim'']" "Returned None" mixed_fs_unlinked]
  note t2 = unlink_removes_only_own_links [of ?th "[''home'', ''u'', ''.vimrc'']"
      "[''src'', ''vim'', ''.vimrc'']" ?c _ "FileInfo True False 488" "[''src'', ''vim'']"
      "[''src'', ''vim'', ''colors'']" _ _ _ _ 5 "[''vim'']" "Returned None" "themes_fs []"]
  have c1: "removeSymlink ?c [''src'', ''vim'', ''.vimrc''] [''home'', ''u'', ''.vimrc''] mixed_fs
      = (None, mixed_fs)"
    using t h1 h2 by blast
  have c2: "unsymPackage_fn ?c [''src'', ''vim''] [''src'', ''vim'', ''colors'']
       (Some (FileInfo True False 488)) None mixed_fs = (None, mixed_fs)"
    using t h3 h4 by blast
  have c3: "peek mixed_fs_unlinked [''home'', ''u'', ''colors''] = Inr (Dir 488 [])"
    using t h5 h6 by blast
  have "peek mixed_fs_unlinked [''home'', ''u'', ''notes''] = Inr (File 420 ''keep'') \<or>
      (\<exists>rel. rel \<noteq> [] \<and> File 420 ''keep'' = Link (Join [''src'', ''vim''] rel) \<and>
         peek mixed_fs_unlinked [''home'', ''u'', ''notes''] = Inl ENOENT)"
    using t h5 h7 by blast
  then have c4: "peek mixed_fs_unlinked [''home'', ''u'', ''notes''] = Inr (File 420 ''keep'')"
    by blast
  have "peek (themes_fs []) [''home'', ''u'', ''colors''] = Inr (Link [''home'', ''u'', ''themes'']) \<or>
      (\<exists>rel. rel \<noteq> [] \<and> Link [''home'', ''u'', ''themes''] = Link (Join [''src'', ''vim''] rel) \<and>
         peek (themes_fs []) [''home'', ''u'', ''colors''] = Inl ENOENT)"
    using t2 h8 h9 by blast
  with h10 have c5: "peek (themes_fs []) [''home'', ''u'', ''colors''] = Inr (Link [''home'', ''u'', ''themes''])"
    by blast
  from h1 h2 h3 h4 h5 h6 h7 h8 h9 c1 c2 c3 c4 c5 show ?thesis by blast
qed

section \<open>Simulate mode\<close>









section \<open>Directories of the package\<close>

text \<open>
  C9, as the code has it. The claim says that the walk ensures that the target of a
  directory entry exists as a directory, with the permission bits of the source
  directory. The code creates the directory only when \<open>Stat\<close> answers that nothing is
  there: with a regular file at the target the link walk over a package holding one
  empty directory succeeds, changes nothing, and the target is still the file. And
  when it does create the directory, the bits of the umask are cleared: under the umask
  \<^verbatim>\<open>022\<close> a source directory with the bits \<^verbatim>\<open>0777\<close> is mirrored with the bits \<^verbatim>\<open>0755\<close>.
\<close>

theorem directory_target_file_counterexample:
  "Lstat (empty_dir_fs [(''colors'', File 420 ''palette'')]) [''src'', ''vim'', ''colors'']
     = Inr (FileInfo True False 488) \<and>
   \<not> Simulate (cfg False False False) \<and>
   ProcessPackage 18 5 (cfg False False False) [''vim''] (empty_dir_fs [(''colors'', File 420 ''palette'')])
     = (Returned None, empty_dir_fs [(''colors'', File 420 ''palette'')]) \<and>
   Lstat (empty_dir_fs [(''colors'', File 420 ''palette'')])
       (Join (TargetDir (cfg False False False)) [''colors''])
     = Inr (FileInfo False False 420) \<and>
   Lstat (wide_dir_fs []) [''src'', ''vim'', ''colors''] = Inr (FileInfo True False 511) \<and>
   ProcessPackage 18 5 (cfg False False False) [''vim''] (wide_dir_fs [])
     = (Returned None, wide_dir_fs [(''colors'', Dir 493 [])]) \<and>
   Lstat (wide_dir_fs [(''colors'', Dir 493 [])])
       (Join (TargetDir (cfg False False False)) [''colors''])
     = Inr (FileInfo True False 493)"
  by code_simp

text \<open>
  C9 amended. For a directory entry of the package other than the root, with the target
  path the join of the target root and the relative path: when \<open>Stat\<close> answers that the
  target does not exist and simulate is unset, the callback either makes the target a
  directory whose permission bits are those of the source directory less the bits of
  the umask, or returns the error of a failed directory creation, and whatever it has
  added to the file system is empty directories with these bits; when \<open>Stat\<close> gives any
  other answer, a directory, something else or another error, or simulate is set, it
  changes nothing and returns no error. It never returns a conflict error, it only adds
  to the file system, and when it returns no error the walk goes on with the names of
  the directory.
\<close>

theorem link_walk_directory_entry:
  assumes "rel \<noteq> []" "IsDir i"
  shows
   "(Stat fs (Join (TargetDir config) rel) = Inl ENOENT \<and> \<not> Simulate config \<longrightarrow>
       (\<forall>fs'. symPackage_fn um config pkgPath (Join pkgPath rel) (Some i) None fs = (None, fs') \<longrightarrow>
          Lstat fs' (Join (TargetDir config) rel)
            = Inr (FileInfo True False (apply_umask um (Mode i)))) \<and>
       (\<forall>e fs'. symPackage_fn um config pkgPath (Join pkgPath rel) (Some i) None fs = (Some e, fs') \<longrightarrow>
          (\<exists>e1. e = CreateDirFailed (Join (TargetDir config) rel) e1)) \<and>
       (\<forall>q. peek (snd (symPackage_fn um config pkgPath (Join pkgPath rel) (Some i) None fs)) q
               = peek fs q \<or>
            (peek fs q = Inl ENOENT \<and>
             peek (snd (symPackage_fn um config pkgPath (Join pkgPath rel) (Some i) None fs)) q
               = Inr (Dir (apply_umask um (Mode i)) [])))) \<and>
    (Stat fs (Join (TargetDir config) rel) \<noteq> Inl ENOENT \<or> Simulate config \<longrightarrow>
       symPackage_fn um config pkgPath (Join pkgPath rel) (Some i) None fs = (None, fs)) \<and>
    (\<forall>a b c. fst (symPackage_fn um config pkgPath (Join pkgPath rel) (Some i) None fs)
               \<noteq> Some (TargetPointsElsewhere a b c) \<and>
             fst (symPackage_fn um config pkgPath (Join pkgPath rel) (Some i) None fs)
               \<noteq> Some (TargetNotSymlink a)) \<and>
    linked pkgPath fs (snd (symPackage_fn um config pkgPath (Join pkgPath rel) (Some i) None fs)) \<and>
    (\<forall>names fs1 k. readDirNames fs (Join pkgPath rel) = Inr names \<and>
        symPackage_fn um config pkgPath (Join pkgPath rel) (Some i) None fs = (None, fs1) \<longrightarrow>
        walk (Suc k) (symPackage_fn um config pkgPath) (Join pkgPath rel) i fs =
          walk_names k (symPackage_fn um config pkgPath) (Join pkgPath rel) names fs1)"
proof -
  let ?fn = "symPackage_fn um config pkgPath (Join pkgPath rel) (Some i) None fs"
  let ?t = "Join (TargetDir config) rel"
  have a: "Lstat fs' ?t = Inr (FileInfo True False (apply_umask um (Mode i)))"
    if "Stat fs ?t = Inl ENOENT" "\<not> Simulate config" "?fn = (None, fs')" for fs'
    using symPackage_fn_dir_made [OF assms that] by simp
  have b: "\<exists>e1. e = CreateDirFailed ?t e1"
    if "Stat fs ?t = Inl ENOENT" "\<not> Simulate config" "?fn = (Some e, fs')" for e fs'
    using symPackage_fn_dir_made [OF assms that] by simp
  have b': "\<forall>q. peek (snd ?fn) q = peek fs q \<or>
      (peek fs q = Inl ENOENT \<and> peek (snd ?fn) q = Inr (Dir (apply_umask um (Mode i)) []))"
    if "Stat fs ?t = Inl ENOENT" "\<not> Simulate config"
    using symPackage_fn_dir_made [OF assms that, of um pkgPath "fst ?fn" "snd ?fn"]
    by simp
  have c: "?fn = (None, fs)" if "Stat fs ?t \<noteq> Inl ENOENT \<or> Simulate config"
    using assms that by (rule symPackage_fn_dir_kept)
  have d: "fst ?fn \<noteq> Some (TargetPointsElsewhere a b c) \<and> fst ?fn \<noteq> Some (TargetNotSymlink a)"
    for a b c
    using assms by (rule symPackage_fn_dir_no_conflict)
  have e: "linked pkgPath fs (snd ?fn)"
    by (rule symPackage_fn_linked [of um config pkgPath "Join pkgPath rel" "Some i" None fs "fst ?fn"])
       simp
  have f: "walk (Suc k) (symPackage_fn um config pkgPath) (Join pkgPath rel) i fs =
          walk_names k (symPackage_fn um config pkgPath) (Join pkgPath rel) names fs1"
    if "readDirNames fs (Join pkgPath rel) = Inr names" "?fn = (None, fs1)" for names fs1 k
    using that assms(2) by simp
  from a b b' c d e f show ?thesis by blast
qed

theorem link_walk_directory_entry_witness:
  "[''colors''] \<noteq> [] \<and> IsDir (FileInfo True False 511) \<and>
   Stat (wide_dir_fs []) (Join (TargetDir (cfg False False False)) [''colors'']) = Inl ENOENT \<and>
   \<not> Simulate (cfg False False False) \<and>
   symPackage_fn 18 (cfg False False False) [''src'', ''vim''] (Join [''src'', ''vim''] [''colors''])
       (Some (FileInfo True False 511)) None (wide_dir_fs [])
     = (None, wide_dir_fs [(''colors'', Dir 493 [])]) \<and>
   Lstat (wide_dir_fs [(''colors'', Dir 493 [])]) (Join (TargetDir (cfg False False False)) [''colors''])
     = Inr (FileInfo True False (apply_umask 18 (Mode (FileInfo True False 511)))) \<and>
   apply_umask 18 (Mode (FileInfo True False 511)) = 493 \<and>
   Stat colors_file_fs (Join (TargetDir (cfg False False False)) [''colors'']) \<noteq> Inl ENOENT \<and>
   symPackage_fn 18 (cfg False False False) [''src'', ''vim''] (Join [''src'', ''vim''] [''colors''])
       (Some (FileInfo True False 488)) None colors_file_fs
     = (None, colors_file_fs)"
proof -
  let ?c = "cfg False False False"
  let ?i = "FileInfo True False 511"
  let ?j = "FileInfo True False 488"
  have h1: "[''colors''] \<noteq> ([] :: path)" by simp
  have h2: "IsDir ?i" by simp
  have h2': "IsDir ?j" by simp
  have h3: "Stat (wide_dir_fs []) (Join (TargetDir ?c) [''colors'']) = Inl ENOENT" by code_simp
  have h4: "\<not> Simulate ?c" by code_simp
  have h5: "symPackage_fn 18 ?c [''src'', ''vim''] (Join [''src'', ''vim''] [''colors''])
       (Some ?i) None (wide_dir_fs []) = (None, wide_dir_fs [(''colors'', Dir 493 [])])"
    by code_simp
  have h6: "Stat colors_file_fs (Join (TargetDir ?c) [''colors'']) \<noteq> Inl ENOENT" by code_simp
  have h7: "apply_umask 18 (Mode ?i) = 493" by code_simp
  note t1 = link_walk_directory_entry [OF h1 h2, where fs = "wide_dir_fs []" and config = ?c
      and pkgPath = "[''src'', ''vim'']" and um = 18]
  note t2 = link_walk_directory_entry [OF h1 h2', where fs = colors_file_fs and config = ?c
      and pkgPath = "[''src'', ''vim'']" and um = 18]
  have c1: "Lstat (wide_dir_fs [(''colors'', Dir 493 [])]) (Join (TargetDir ?c) [''colors''])
     = Inr (FileInfo True False (apply_umask 18 (Mode ?i)))"
    using t1 h3 h4 h5 by blast
  have c2: "symPackage_fn 18 ?c [''src'', ''vim''] (Join [''src'', ''vim''] [''colors''])
       (Some ?j) None colors_file_fs = (None, colors_file_fs)"
    using t2 h6 by blast
  from h1 h2 h3 h4 h5 h6 h7 c1 c2 show ?thesis by blast
qed

section \<open>What the link walk puts in the target tree\<close>

lemma createSymlink_new_link:
  assumes "createSymlink um config src t fs = (r, fs')"
    and "peek fs' q = Inr (Link d)" "peek fs q \<noteq> Inr (Link d)"
  shows "d = src \<and> locate False fs' t = Inr q \<and> r = None"
proof -
  from createSymlink_steps [OF assms(1)] obtain fs1
    where a: "fs1 = fs \<or> (\<exists>r1. MkdirAll um fs (filepath_Dir t) 493 = (r1, fs1))"
      and b: "fs' = fs1 \<or> (Symlink fs1 src t = Inr fs' \<and> r = None)"
    by blast
  have 1: "peek fs1 q = peek fs q \<or> (\<exists>m. peek fs1 q = Inr (Dir m []))"
    using a MkdirAll_grows [of um fs "filepath_Dir t" 493 _ fs1 q] by auto
  with assms(2,3) have ne: "fs' \<noteq> fs1" by auto
  with b have s: "Symlink fs1 src t = Inr fs'" and r: "r = None" by auto
  from s obtain q0 where l: "locate False fs1 t = Inr q0"
    and cr: "create fs1 q0 (Link src) = Inr fs'"
    by (rule Symlink_Inr)
  note sp = create_spec [OF cr]
  have "q = q0"
  proof (rule ccontr)
    assume nq: "q \<noteq> q0"
    show False
    proof (cases "prefix q0 q")
      case False
      with sp(3) [of q] have "peek fs' q = peek fs1 q" by simp
      with 1 assms(2,3) show False by auto
    next
      case True
      with nq obtain x xs where "q = q0 @ x # xs"
        by (auto simp: prefix_def) (metis list.exhaust append_Nil2)
      with sp(3) [of q] assms(2) show False by simp
    qed
  qed
  with sp(3) [of q] assms(2) have "d = src" by simp
  with create_seen(1) [OF l cr] \<open>q = q0\<close> r show ?thesis by simp
qed

text \<open>
  C7, as the code has it. The claim says that every directory entry becomes a real
  directory at its target location and never a symbolic link. The code leaves alone
  whatever \<open>Stat\<close> finds there: with a symbolic link to a directory at the target of a
  directory entry the link walk succeeds, changes nothing, and the target location is
  still a symbolic link.
\<close>

theorem directory_target_symlink_counterexample:
  "Lstat (empty_dir_fs [(''colors'', Link [''home'', ''u'', ''themes'']), (''themes'', Dir 493 [])])
       [''src'', ''vim'', ''colors'']
     = Inr (FileInfo True False 488) \<and>
   \<not> Simulate (cfg False False False) \<and>
   ProcessPackage 18 5 (cfg False False False) [''vim'']
       (empty_dir_fs [(''colors'', Link [''home'', ''u'', ''themes'']), (''themes'', Dir 493 [])])
     = (Returned None,
        empty_dir_fs [(''colors'', Link [''home'', ''u'', ''themes'']), (''themes'', Dir 493 [])]) \<and>
   Lstat (empty_dir_fs [(''colors'', Link [''home'', ''u'', ''themes'']), (''themes'', Dir 493 [])])
       (Join (TargetDir (cfg False False False)) [''colors''])
     = Inr (FileInfo False True 511)"
  by code_simp

text \<open>
  C7 amended. For an entry of the package at the relative path \<open>rel\<close>, not the root, the
  target path is the join of the target root and \<open>rel\<close>, and the callback changes
  nothing that existed before. With simulate unset and no error returned: for a
  non-directory entry the target path afterwards names a symbolic link whose destination
  is the source path, and a symbolic link that was not there before is that link, at
  the place the target path resolves to; for a directory entry, when \<open>Stat\<close> answered
  that the target does not exist, the target path afterwards names a real directory,
  with the permission bits of the source directory less those of the umask, and with
  any other answer of \<open>Stat\<close> the file system is left as it was; a directory entry
  never makes a symbolic link.
\<close>

theorem link_walk_entry_result:
  assumes "rel \<noteq> []" "\<not> Simulate config"
    and "symPackage_fn um config pkgPath (Join pkgPath rel) (Some i) None fs = (None, fs')"
  shows
   "(\<not> IsDir i \<longrightarrow>
       Readlink fs' (Join (TargetDir config) rel) = Inr (Join pkgPath rel) \<and>
       Lstat fs' (Join (TargetDir config) rel) = Inr (FileInfo False True 511)) \<and>
    (IsDir i \<and> Stat fs (Join (TargetDir config) rel) = Inl ENOENT \<longrightarrow>
       Lstat fs' (Join (TargetDir config) rel)
         = Inr (FileInfo True False (apply_umask um (Mode i)))) \<and>
    (IsDir i \<and> Stat fs (Join (TargetDir config) rel) \<noteq> Inl ENOENT \<longrightarrow> fs' = fs) \<and>
    (\<forall>q d. peek fs' q = Inr (Link d) \<and> peek fs q \<noteq> Inr (Link d) \<longrightarrow>
       \<not> IsDir i \<and> d = Join pkgPath rel \<and> locate False fs' (Join (TargetDir config) rel) = Inr q) \<and>
    (\<forall>q. peek fs q \<noteq> Inl ENOENT \<longrightarrow> peek fs' q = peek fs q)"
proof -
  let ?t = "Join (TargetDir config) rel"
  have a: "Readlink fs' ?t = Inr (Join pkgPath rel) \<and> Lstat fs' ?t = Inr (FileInfo False True 511)"
    if "\<not> IsDir i"
  proof -
    from that assms(1,3) have "createSymlink um config (Join pkgPath rel) ?t fs = (None, fs')"
      by (simp add: symPackage_fn_entry)
    from createSymlink_made [OF this assms(2)] show ?thesis
      by (simp add: Readlink_seen Lstat_seen)
  qed
  have b: "Lstat fs' ?t = Inr (FileInfo True False (apply_umask um (Mode i)))"
    if "IsDir i" "Stat fs ?t = Inl ENOENT"
    using symPackage_fn_dir_made [OF assms(1) that assms(2,3)] by simp
  have c: "fs' = fs" if "IsDir i" "Stat fs ?t \<noteq> Inl ENOENT"
    using symPackage_fn_dir_kept [OF assms(1) that(1), of fs config um pkgPath] that(2) assms(3)
    by simp
  have d: "\<not> IsDir i \<and> d = Join pkgPath rel \<and> locate False fs' ?t = Inr q"
    if n: "peek fs' q = Inr (Link d)" "peek fs q \<noteq> Inr (Link d)" for q d
  proof (cases "IsDir i")
    case False
    with assms(1,3) have "createSymlink um config (Join pkgPath rel) ?t fs = (None, fs')"
      by (simp add: symPackage_fn_entry)
    from createSymlink_new_link [OF this n] False show ?thesis by simp
  next
    case True
    show ?thesis
    proof (cases "Stat fs ?t = Inl ENOENT")
      case False
      with c [OF True] n show ?thesis by simp
    next
      case e: True
      from symPackage_fn_dir_made [OF assms(1) True e assms(2,3)]
      have "peek fs' q = peek fs q \<or>
          (peek fs q = Inl ENOENT \<and> peek fs' q = Inr (Dir (apply_umask um (Mode i)) []))"
        by blast
      with n have False by auto
      then show ?thesis ..
    qed
  qed
  have e: "peek fs' q = peek fs q" if "peek fs q \<noteq> Inl ENOENT" for q
    using linked_persists [OF symPackage_fn_linked [OF assms(3)] that] .
  from a b c d e show ?thesis by blast
qed

theorem link_walk_entry_result_witness:
  "[''.vimrc''] \<noteq> [] \<and> \<not> Simulate (cfg False False False) \<and>
   symPackage_fn 18 (cfg False False False) [''src'', ''vim''] (Join [''src'', ''vim''] [''.vimrc''])
       (Some (FileInfo False False 420)) None (mkfs [])
     = (None, mkfs [(''.vimrc'', Link [''src'', ''vim'', ''.vimrc''])]) \<and>
   \<not> IsDir (FileInfo False False 420) \<and>
   Readlink (mkfs [(''.vimrc'', Link [''src'', ''vim'', ''.vimrc''])])
       (Join (TargetDir (cfg False False False)) [''.vimrc''])
     = Inr (Join [''src'', ''vim''] [''.vimrc'']) \<and>
   [''colors''] \<noteq> [] \<and> IsDir (FileInfo True False 511) \<and>
   symPackage_fn 18 (cfg False False False) [''src'', ''vim''] (Join [''src'', ''vim''] [''colors''])
       (Some (FileInfo True False 511)) None (wide_dir_fs [])
     = (None, wide_dir_fs [(''colors'', Dir 493 [])]) \<and>
   Stat (wide_dir_fs []) (Join (TargetDir (cfg False False False)) [''colors'']) = Inl ENOENT \<and>
   Lstat (wide_dir_fs [(''colors'', Dir 493 [])]) (Join (TargetDir (cfg False False False)) [''colors''])
     = Inr (FileInfo True False (apply_umask 18 (Mode (FileInfo True False 511)))) \<and>
   [''colors'', ''foo.vim''] \<noteq> [] \<and>
   symPackage_fn 18 (cfg False False False) [''src'', ''vim'']
       (Join [''src'', ''vim''] [''colors'', ''foo.vim''])
       (Some (FileInfo False False 420)) None (themes_fs [])
     = (None, themes_fs [(''foo.vim'', Link [''src'', ''vim'', ''colors'', ''foo.vim''])]) \<and>
   Readlink (themes_fs [(''foo.vim'', Link [''src'', ''vim'', ''colors'', ''foo.vim''])])
       (Join (TargetDir (cfg False False False)) [''colors'', ''foo.vim''])
     = Inr (Join [''src'', ''vim''] [''colors'', ''foo.vim''])"
proof -
  let ?c = "cfg False False False"
  have h1: "[''.vimrc''] \<noteq> ([] :: path)" by simp
  have h2: "\<not> Simulate ?c" by code_simp
  have h3: "symPackage_fn 18 ?c [''src'', ''vim''] (Join [''src'', ''vim''] [''.vimrc''])
       (Some (FileInfo False False 420)) None (mkfs [])
     = (None, mkfs [(''.vimrc'', Link [''src'', ''vim'', ''.vimrc''])])"
    by code_simp
  have h4: "\<not> IsDir (FileInfo False False 420)" by simp
  have h5: "[''colors''] \<noteq> ([] :: path)" by simp
  have h6: "IsDir (FileInfo True False 511)" by simp
  have h7: "symPackage_fn 18 ?c [''src'', ''vim''] (Join [''src'', ''vim''] [''colors''])
       (Some (FileInfo True False 511)) None (wide_dir_fs [])
     = (None, wide_dir_fs [(''colors'', Dir 493 [])])"
    by code_simp
  have h8: "Stat (wide_dir_fs []) (Join (TargetDir ?c) [''colors'']) = Inl ENOENT" by code_simp
  have h9: "[''colors'', ''foo.vim''] \<noteq> ([] :: path)" by simp
  have h10: "symPackage_fn 18 ?c [''src'', ''vim''] (Join [''src'', ''vim''] [''colors'', ''foo.vim''])
       (Some (FileInfo False False 420)) None (themes_fs [])
     = (None, themes_fs [(''foo.vim'', Link [''src'', ''vim'', ''colors'', ''foo.vim''])])"
    by code_simp
  have c1: "Readlink (mkfs [(''.vimrc'', Link [''src'', ''vim'', ''.vimrc''])])
       (Join (TargetDir ?c) [''.vimrc'']) = Inr (Join [''src'', ''vim''] [''.vimrc''])"
    using link_walk_entry_result [OF h1 h2 h3] h4 by blast
  have c2: "Lstat (wide_dir_fs [(''colors'', Dir 493 [])]) (Join (TargetDir ?c) [''colors''])
     = Inr (FileInfo True False (apply_umask 18 (Mode (FileInfo True False 511))))"
    using link_walk_entry_result [OF h5 h2 h7] h6 h8 by blast
  have c3: "Readlink (themes_fs [(''foo.vim'', Link [''src'', ''vim'', ''colors'', ''foo.vim''])])
       (Join (TargetDir ?c) [''colors'', ''foo.vim''])
     = Inr (Join [''src'', ''vim''] [''colors'', ''foo.vim''])"
    using link_walk_entry_result [OF h9 h2 h10] h4 by blast
  from h1 h2 h3 h4 h5 h6 h7 h8 h9 h10 c1 c2 c3 show ?thesis by blast
qed

end
